theory Spec2Isabelle
  imports Complex_Main
begin

section \<open>Graph model\<close>

text \<open>
  The data of \<^verbatim>\<open>graphUtils.ts\<close>. JavaScript numbers are modelled as reals; node and
  edge identifiers are strings. Record fields are global constants, so the fields
  \<^verbatim>\<open>id\<close>, \<^verbatim>\<open>x\<close>, \<^verbatim>\<open>y\<close>, \<^verbatim>\<open>label\<close>, \<^verbatim>\<open>type\<close> and \<^verbatim>\<open>shape\<close> carry the prefix of their record.
\<close>

datatype NodeType = NDefault | NStart | NGoal | NVisited | NPath

datatype NodeShape = Circle | Square

datatype EdgeType = Default | Path | Undirected

record Node =
  node_id :: string
  node_x :: real
  node_y :: real
  node_label :: "string option"
  node_type :: NodeType
  node_shape :: "NodeShape option"

record Edge =
  edge_id :: string
  source :: string
  target :: string
  weight :: real
  edge_type :: EdgeType

record Graph =
  nodes :: "Node list"
  edges :: "Edge list"

definition manhattanDistance :: "Node \<Rightarrow> Node \<Rightarrow> real" where
  "manhattanDistance node1 node2 =
     \<bar>node_x node1 - node_x node2\<bar> + \<bar>node_y node1 - node_y node2\<bar>"

definition euclideanDistance :: "Node \<Rightarrow> Node \<Rightarrow> real" where
  "euclideanDistance node1 node2 =
     (let dx = node_x node1 - node_x node2;
          dy = node_y node1 - node_y node2
      in sqrt (dx * dx + dy * dy))"

text \<open>The predicate handed to \<^verbatim>\<open>graph.edges.find\<close> by \<^verbatim>\<open>findEdge\<close>.\<close>

definition edgeMatches :: "string \<Rightarrow> string \<Rightarrow> Edge \<Rightarrow> bool" where
  "edgeMatches sourceId targetId edge \<longleftrightarrow>
     (source edge = sourceId \<and> target edge = targetId) \<or>
     (edge_type edge = Undirected \<and> source edge = targetId \<and> target edge = sourceId)"

definition findEdge :: "Graph \<Rightarrow> string \<Rightarrow> string \<Rightarrow> Edge option" where
  "findEdge graph sourceId targetId = find (edgeMatches sourceId targetId) (edges graph)"

section \<open>Search algorithms\<close>

text \<open>
  The data of \<^verbatim>\<open>algorithms.ts\<close>. The fields \<^verbatim>\<open>path\<close> and \<^verbatim>\<open>pathEdges\<close> occur in three
  interfaces; those of \<^verbatim>\<open>AlgorithmResult\<close> carry the prefix \<open>r_\<close> and those of
  \<^verbatim>\<open>AlgorithmStepResult\<close> the prefix \<open>s_\<close>. The field \<^verbatim>\<open>executionTime\<close> is a difference of two
  readings of the wall clock and is left out of \<open>AlgorithmResult\<close>.
\<close>

record AlgorithmResult =
  r_path :: "string list"
  r_pathEdges :: "string list"
  pathLength :: nat
  pathCost :: real
  nodesVisited :: nat

record AlgorithmStepResult =
  currentNodeId :: "string option"
  visited :: "string list"
  s_path :: "string list"
  s_pathEdges :: "string list"
  frontier :: "string list"
  isComplete :: bool

record QueueItem =
  nodeId :: string
  path :: "string list"
  pathEdges :: "string list"
  cost :: real
  priority :: real

text \<open>
  A call of a method on \<^verbatim>\<open>undefined\<close> throws a \<^verbatim>\<open>TypeError\<close>. A run of a search is the
  sequence of step results handed to \<^verbatim>\<open>onStep\<close>, in call order, together with either the
  error thrown or the result returned.
\<close>

datatype error = TypeError

type_synonym run = "AlgorithmStepResult list \<times> (error + AlgorithmResult)"

text \<open>
  \<^verbatim>\<open>getNeighbors\<close> fills \<^verbatim>\<open>adjacencyList[nodeId]\<close> only, in edge order: one entry for an edge
  leaving \<^verbatim>\<open>nodeId\<close>, one for an undirected edge entering it (both for an undirected
  self-loop). The list exists only for the ids of \<^verbatim>\<open>graph.nodes\<close>: for any other id the
  first \<^verbatim>\<open>push\<close> is a call on \<^verbatim>\<open>undefined\<close>, and with nothing to push the result is
  \<^verbatim>\<open>[]\<close>. Ids are taken not to be names of properties that every object inherits, such
  as \<^verbatim>\<open>constructor\<close>. The parameter \<^verbatim>\<open>nodeId\<close> is written \<open>nid\<close>, apart from the field of
  \<open>QueueItem\<close>.
\<close>

definition neighborEntries :: "string \<Rightarrow> Edge \<Rightarrow> (string \<times> real) list" where
  "neighborEntries nid edge =
     (if source edge = nid then [(target edge, weight edge)] else []) @
     (if edge_type edge = Undirected \<and> target edge = nid
      then [(source edge, weight edge)] else [])"

definition getNeighbors :: "Graph \<Rightarrow> string \<Rightarrow> error + (string \<times> real) list" where
  "getNeighbors graph nid =
     (let entries = concat (map (neighborEntries nid) (edges graph))
      in if nid \<in> set (map node_id (nodes graph)) then Inr entries
         else if entries = [] then Inr []
         else Inl TypeError)"

definition calculateHeuristic :: "Node \<Rightarrow> Node \<Rightarrow> string \<Rightarrow> real" where
  "calculateHeuristic node goalNode heuristicType =
     (if heuristicType = ''euclidean'' then euclideanDistance node goalNode
      else if heuristicType = ''manhattan'' then manhattanDistance node goalNode
      else 0)"

text \<open>The result and the step built when the goal is dequeued.\<close>

definition goalResult :: "QueueItem \<Rightarrow> nat \<Rightarrow> AlgorithmResult" where
  "goalResult item n =
     \<lparr>r_path = path item, r_pathEdges = pathEdges item, pathLength = length (path item),
      pathCost = cost item, nodesVisited = n\<rparr>"

definition goalStep :: "QueueItem \<Rightarrow> string list \<Rightarrow> QueueItem list \<Rightarrow> AlgorithmStepResult" where
  "goalStep item vis fr =
     \<lparr>currentNodeId = Some (nodeId item), visited = vis, s_path = path item,
      s_pathEdges = pathEdges item, frontier = map nodeId fr, isComplete = True\<rparr>"

text \<open>The step emitted when a node is settled.\<close>

definition visitStep :: "QueueItem \<Rightarrow> string list \<Rightarrow> QueueItem list \<Rightarrow> AlgorithmStepResult" where
  "visitStep item vis fr =
     \<lparr>currentNodeId = Some (nodeId item), visited = vis, s_path = path item,
      s_pathEdges = pathEdges item, frontier = map nodeId fr, isComplete = False\<rparr>"

text \<open>The result and the step built when the frontier is empty.\<close>

definition exhaustedResult :: "nat \<Rightarrow> AlgorithmResult" where
  "exhaustedResult n =
     \<lparr>r_path = [], r_pathEdges = [], pathLength = 0, pathCost = 0, nodesVisited = n\<rparr>"

definition exhaustedStep :: "string list \<Rightarrow> AlgorithmStepResult" where
  "exhaustedStep vis =
     \<lparr>currentNodeId = None, visited = vis, s_path = [], s_pathEdges = [], frontier = [],
      isComplete = True\<rparr>"

text \<open>The queue item pushed for a neighbour reached from the dequeued item.\<close>

definition pushedItem :: "Graph \<Rightarrow> QueueItem \<Rightarrow> string \<Rightarrow> real \<Rightarrow> real \<Rightarrow> QueueItem" where
  "pushedItem graph item neighborId newCost newPriority =
     \<lparr>nodeId = neighborId, path = path item @ [neighborId],
      pathEdges = (case findEdge graph (nodeId item) neighborId of
                     Some edge \<Rightarrow> pathEdges item @ [edge_id edge]
                   | None \<Rightarrow> pathEdges item),
      cost = newCost, priority = newPriority\<rparr>"

definition startItem :: "string \<Rightarrow> real \<Rightarrow> QueueItem" where
  "startItem startNodeId p =
     \<lparr>nodeId = startNodeId, path = [startNodeId], pathEdges = [], cost = 0, priority = p\<rparr>"

text \<open>The ids that occur as an end of an edge; they bound the number of expansions.\<close>

definition endpoints :: "Graph \<Rightarrow> string set" where
  "endpoints graph = source ` set (edges graph) \<union> target ` set (edges graph)"

subsection \<open>Breadth-first search\<close>

text \<open>
  The \<^verbatim>\<open>for\<close> loop over the neighbours. The map \<^verbatim>\<open>cameFrom\<close> is written here and read
  nowhere in the four searches (\<^verbatim>\<open>reconstructPath\<close> is never called), so it is not part
  of the state.
\<close>

fun bfs_neighbors ::
  "Graph \<Rightarrow> string list \<Rightarrow> QueueItem \<Rightarrow> (string \<times> real) list \<Rightarrow> QueueItem list \<Rightarrow> QueueItem list"
where
  "bfs_neighbors graph vis item [] fr = fr"
| "bfs_neighbors graph vis item ((neighborId, w) # rest) fr =
     (if neighborId \<notin> set vis
      then bfs_neighbors graph vis item rest
             (fr @ [pushedItem graph item neighborId (cost item + w) 0])
      else bfs_neighbors graph vis item rest fr)"

function bfs_loop :: "Graph \<Rightarrow> string \<Rightarrow> QueueItem list \<Rightarrow> string list \<Rightarrow> nat \<Rightarrow> run" where
  "bfs_loop graph goalNodeId [] vis n = ([exhaustedStep vis], Inr (exhaustedResult n))"
| "bfs_loop graph goalNodeId (item # fr) vis n =
     (if nodeId item = goalNodeId then ([goalStep item vis fr], Inr (goalResult item n))
      else if nodeId item \<in> set vis then bfs_loop graph goalNodeId fr vis n
      else (case getNeighbors graph (nodeId item) of
              Inl e \<Rightarrow> ([visitStep item (vis @ [nodeId item]) fr], Inl e)
            | Inr neighbors \<Rightarrow>
                (case bfs_loop graph goalNodeId
                        (bfs_neighbors graph (vis @ [nodeId item]) item neighbors fr)
                        (vis @ [nodeId item]) (Suc n) of
                   (steps, out) \<Rightarrow> (visitStep item (vis @ [nodeId item]) fr # steps, out))))"
  by pat_completeness auto

lemma getNeighbors_endpoints:
  assumes "getNeighbors graph v = Inr nbs" and "nbs \<noteq> []"
  shows "v \<in> endpoints graph"
proof -
  from assms have "concat (map (neighborEntries v) (edges graph)) \<noteq> []"
    by (auto simp: getNeighbors_def Let_def split: if_splits)
  then obtain e where e: "e \<in> set (edges graph)" and "neighborEntries v e \<noteq> []"
    by auto
  then have "source e = v \<or> target e = v"
    by (auto simp: neighborEntries_def split: if_splits)
  with e show ?thesis
    unfolding endpoints_def by blast
qed

lemma search_measure:
  assumes "v \<notin> set vis" and "getNeighbors graph v = Inr nbs"
    and "nbs = [] \<Longrightarrow> length fr' < length fr"
  shows "((card (endpoints graph - set (vis @ [v])), length fr'),
          (card (endpoints graph - set vis), length fr)) \<in> less_than <*lex*> less_than"
proof (cases "nbs = []")
  case True
  have "card (endpoints graph - set (vis @ [v])) \<le> card (endpoints graph - set vis)"
    by (rule card_mono) (auto simp: endpoints_def)
  with assms(3) [OF True] show ?thesis
    by auto
next
  case False
  then have "v \<in> endpoints graph"
    using assms(2) by (rule getNeighbors_endpoints [rotated])
  with assms(1) have "card (endpoints graph - set (vis @ [v])) < card (endpoints graph - set vis)"
    by (intro psubset_card_mono) (auto simp: endpoints_def)
  then show ?thesis
    by simp
qed

termination bfs_loop
proof (relation "inv_image (less_than <*lex*> less_than)
         (\<lambda>(graph, goalNodeId, fr, vis, n). (card (endpoints graph - set vis), length fr))",
       goal_cases)
  case 1
  show ?case by (intro wf_inv_image wf_lex_prod wf_less_than)
next
  case 2
  show ?case by simp
next
  case (3 graph goalNodeId item fr vis n nbs)
  then show ?case
    using search_measure [of "nodeId item" vis graph nbs
        "bfs_neighbors graph (vis @ [nodeId item]) item nbs fr" "item # fr"]
    by simp
qed

declare bfs_loop.simps [simp del]

text \<open>
  \<^verbatim>\<open>onStep\<close> is optional; the steps of a run are the calls made when it is given. The first
  queue item has priority 0.
\<close>

definition bfs :: "Graph \<Rightarrow> string \<Rightarrow> string \<Rightarrow> run" where
  "bfs graph startNodeId goalNodeId =
     bfs_loop graph goalNodeId [startItem startNodeId 0] [] 0"

subsection \<open>Depth-first search\<close>

text \<open>The frontier is a stack whose top is the end of the array: \<^verbatim>\<open>pop\<close> and \<^verbatim>\<open>push\<close>.\<close>

fun dfs_neighbors ::
  "Graph \<Rightarrow> string list \<Rightarrow> QueueItem \<Rightarrow> (string \<times> real) list \<Rightarrow> QueueItem list \<Rightarrow> QueueItem list"
where
  "dfs_neighbors graph vis item [] fr = fr"
| "dfs_neighbors graph vis item ((neighborId, w) # rest) fr =
     (if neighborId \<notin> set vis
      then dfs_neighbors graph vis item rest
             (fr @ [pushedItem graph item neighborId (cost item + w) 0])
      else dfs_neighbors graph vis item rest fr)"

function dfs_loop :: "Graph \<Rightarrow> string \<Rightarrow> QueueItem list \<Rightarrow> string list \<Rightarrow> nat \<Rightarrow> run" where
  "dfs_loop graph goalNodeId fr vis n =
     (if fr = [] then ([exhaustedStep vis], Inr (exhaustedResult n))
      else if nodeId (last fr) = goalNodeId
      then ([goalStep (last fr) vis (butlast fr)], Inr (goalResult (last fr) n))
      else if nodeId (last fr) \<in> set vis then dfs_loop graph goalNodeId (butlast fr) vis n
      else (case getNeighbors graph (nodeId (last fr)) of
              Inl e \<Rightarrow> ([visitStep (last fr) (vis @ [nodeId (last fr)]) (butlast fr)], Inl e)
            | Inr neighbors \<Rightarrow>
                (case dfs_loop graph goalNodeId
                        (dfs_neighbors graph (vis @ [nodeId (last fr)]) (last fr) neighbors
                           (butlast fr))
                        (vis @ [nodeId (last fr)]) (Suc n) of
                   (steps, out) \<Rightarrow>
                     (visitStep (last fr) (vis @ [nodeId (last fr)]) (butlast fr) # steps, out))))"
  by pat_completeness auto

termination dfs_loop
proof (relation "inv_image (less_than <*lex*> less_than)
         (\<lambda>(graph, goalNodeId, fr, vis, n). (card (endpoints graph - set vis), length fr))",
       goal_cases)
  case 1
  show ?case by (intro wf_inv_image wf_lex_prod wf_less_than)
next
  case (2 graph goalNodeId fr vis n)
  then show ?case by simp
next
  case (3 graph goalNodeId fr vis n nbs)
  then show ?case
    using search_measure [of "nodeId (last fr)" vis graph nbs
        "dfs_neighbors graph (vis @ [nodeId (last fr)]) (last fr) nbs (butlast fr)" fr]
    by simp
qed

declare dfs_loop.simps [simp del]

definition dfs :: "Graph \<Rightarrow> string \<Rightarrow> string \<Rightarrow> run" where
  "dfs graph startNodeId goalNodeId =
     dfs_loop graph goalNodeId [startItem startNodeId 0] [] 0"

subsection \<open>Dijkstra\<close>

text \<open>
  \<^verbatim>\<open>Array.prototype.sort\<close> is stable, as is \<open>sort_key\<close>. The \<^verbatim>\<open>for\<close> loop over the neighbours
  updates the frontier and \<^verbatim>\<open>costSoFar\<close>; a new item has its cost as priority.
\<close>

fun dijkstra_neighbors ::
  "Graph \<Rightarrow> QueueItem \<Rightarrow> (string \<times> real) list \<Rightarrow>
   QueueItem list \<times> (string \<rightharpoonup> real) \<Rightarrow> QueueItem list \<times> (string \<rightharpoonup> real)"
where
  "dijkstra_neighbors graph item [] (fr, costSoFar) = (fr, costSoFar)"
| "dijkstra_neighbors graph item ((neighborId, w) # rest) (fr, costSoFar) =
     (let newCost = cost item + w
      in if (case costSoFar neighborId of None \<Rightarrow> True | Some c \<Rightarrow> newCost < c)
         then dijkstra_neighbors graph item rest
                (fr @ [pushedItem graph item neighborId newCost newCost],
                 costSoFar(neighborId \<mapsto> newCost))
         else dijkstra_neighbors graph item rest (fr, costSoFar))"

function dijkstra_loop ::
  "Graph \<Rightarrow> string \<Rightarrow> QueueItem list \<Rightarrow> string list \<Rightarrow> (string \<rightharpoonup> real) \<Rightarrow> nat \<Rightarrow> run"
where
  "dijkstra_loop graph goalNodeId fr vis costSoFar n =
     (if fr = [] then ([exhaustedStep vis], Inr (exhaustedResult n))
      else (case sort_key cost fr of
              [] \<Rightarrow> ([], Inl TypeError)
            | item # fr' \<Rightarrow>
                if nodeId item = goalNodeId
                then ([goalStep item vis fr'], Inr (goalResult item n))
                else if nodeId item \<in> set vis
                then dijkstra_loop graph goalNodeId fr' vis costSoFar n
                else (case getNeighbors graph (nodeId item) of
                        Inl e \<Rightarrow> ([visitStep item (vis @ [nodeId item]) fr'], Inl e)
                      | Inr neighbors \<Rightarrow>
                          (case dijkstra_neighbors graph item neighbors (fr', costSoFar) of
                             (fr'', costSoFar') \<Rightarrow>
                               (case dijkstra_loop graph goalNodeId fr''
                                       (vis @ [nodeId item]) costSoFar' (Suc n) of
                                  (steps, out) \<Rightarrow>
                                    (visitStep item (vis @ [nodeId item]) fr' # steps, out))))))"
  by pat_completeness auto

lemma length_sorted_tail: "sort_key f fr = item # fr' \<Longrightarrow> length fr' < length fr"
  using length_sort [of f fr] by simp

termination dijkstra_loop
proof (relation "inv_image (less_than <*lex*> less_than)
         (\<lambda>(graph, goalNodeId, fr, vis, costSoFar, n).
            (card (endpoints graph - set vis), length fr))",
       goal_cases)
  case 1
  show ?case by (intro wf_inv_image wf_lex_prod wf_less_than)
next
  case (2 graph goalNodeId fr vis costSoFar n item fr')
  then show ?case by (simp add: length_sorted_tail)
next
  case (3 graph goalNodeId fr vis costSoFar n item fr' nbs fr'' costSoFar')
  then have "nbs = [] \<Longrightarrow> length fr'' < length fr"
    by (auto simp: length_sorted_tail)
  with 3 show ?case
    using search_measure [of "nodeId item" vis graph nbs fr'' fr] by simp
qed

declare dijkstra_loop.simps [simp del]

text \<open>\<^verbatim>\<open>costSoFar\<close> starts with the start node at cost 0.\<close>

definition dijkstra :: "Graph \<Rightarrow> string \<Rightarrow> string \<Rightarrow> run" where
  "dijkstra graph startNodeId goalNodeId =
     dijkstra_loop graph goalNodeId [startItem startNodeId 0] [] [startNodeId \<mapsto> 0] 0"

subsection \<open>A*\<close>

text \<open>
  The cost of a neighbour is read from \<^verbatim>\<open>costSoFar\<close> at the dequeued node
  (\<^verbatim>\<open>costSoFar.get(nodeId) || 0\<close>), not from the dequeued item. \<^verbatim>\<open>costSoFar\<close> is updated before
  the neighbour is looked up in \<^verbatim>\<open>graph.nodes\<close>; only a neighbour found there is pushed.
\<close>

definition findNode :: "Graph \<Rightarrow> string \<Rightarrow> Node option" where
  "findNode graph nid = find (\<lambda>node. node_id node = nid) (nodes graph)"

fun astar_neighbors ::
  "Graph \<Rightarrow> Node \<Rightarrow> string \<Rightarrow> QueueItem \<Rightarrow> (string \<times> real) list \<Rightarrow>
   QueueItem list \<times> (string \<rightharpoonup> real) \<Rightarrow> QueueItem list \<times> (string \<rightharpoonup> real)"
where
  "astar_neighbors graph goalNode heuristicType item [] (fr, costSoFar) = (fr, costSoFar)"
| "astar_neighbors graph goalNode heuristicType item ((neighborId, w) # rest) (fr, costSoFar) =
     (let newCost = (case costSoFar (nodeId item) of None \<Rightarrow> 0 | Some c \<Rightarrow> c) + w
      in if (case costSoFar neighborId of None \<Rightarrow> True | Some c \<Rightarrow> newCost < c)
         then (case findNode graph neighborId of
                 Some neighborNode \<Rightarrow>
                   astar_neighbors graph goalNode heuristicType item rest
                     (fr @ [pushedItem graph item neighborId newCost
                              (newCost + calculateHeuristic neighborNode goalNode heuristicType)],
                      costSoFar(neighborId \<mapsto> newCost))
               | None \<Rightarrow>
                   astar_neighbors graph goalNode heuristicType item rest
                     (fr, costSoFar(neighborId \<mapsto> newCost)))
         else astar_neighbors graph goalNode heuristicType item rest (fr, costSoFar))"

function astar_loop ::
  "Graph \<Rightarrow> string \<Rightarrow> Node \<Rightarrow> string \<Rightarrow> QueueItem list \<Rightarrow> string list \<Rightarrow>
   (string \<rightharpoonup> real) \<Rightarrow> nat \<Rightarrow> run"
where
  "astar_loop graph goalNodeId goalNode heuristicType fr vis costSoFar n =
     (if fr = [] then ([exhaustedStep vis], Inr (exhaustedResult n))
      else (case sort_key priority fr of
              [] \<Rightarrow> ([], Inl TypeError)
            | item # fr' \<Rightarrow>
                if nodeId item = goalNodeId
                then ([goalStep item vis fr'], Inr (goalResult item n))
                else if nodeId item \<in> set vis
                then astar_loop graph goalNodeId goalNode heuristicType fr' vis costSoFar n
                else (case getNeighbors graph (nodeId item) of
                        Inl e \<Rightarrow> ([visitStep item (vis @ [nodeId item]) fr'], Inl e)
                      | Inr neighbors \<Rightarrow>
                          (case astar_neighbors graph goalNode heuristicType item neighbors
                                  (fr', costSoFar) of
                             (fr'', costSoFar') \<Rightarrow>
                               (case astar_loop graph goalNodeId goalNode heuristicType fr''
                                       (vis @ [nodeId item]) costSoFar' (Suc n) of
                                  (steps, out) \<Rightarrow>
                                    (visitStep item (vis @ [nodeId item]) fr' # steps, out))))))"
  by pat_completeness auto

termination astar_loop
proof (relation "inv_image (less_than <*lex*> less_than)
         (\<lambda>(graph, goalNodeId, goalNode, heuristicType, fr, vis, costSoFar, n).
            (card (endpoints graph - set vis), length fr))",
       goal_cases)
  case 1
  show ?case by (intro wf_inv_image wf_lex_prod wf_less_than)
next
  case (2 graph goalNodeId goalNode heuristicType fr vis costSoFar n item fr')
  then show ?case by (simp add: length_sorted_tail)
next
  case (3 graph goalNodeId goalNode heuristicType fr vis costSoFar n item fr' nbs fr''
      costSoFar')
  then have "nbs = [] \<Longrightarrow> length fr'' < length fr"
    by (auto simp: length_sorted_tail)
  with 3 show ?case
    using search_measure [of "nodeId item" vis graph nbs fr'' fr] by simp
qed

declare astar_loop.simps [simp del]

text \<open>The result returned without a search: by the guard of \<^verbatim>\<open>astar\<close> and by the dispatcher.\<close>

definition emptyResult :: AlgorithmResult where
  "emptyResult =
     \<lparr>r_path = [], r_pathEdges = [], pathLength = 0, pathCost = 0, nodesVisited = 0\<rparr>"

text \<open>
  An omitted \<^verbatim>\<open>heuristicType\<close> is \<open>None\<close> and takes the default value \<^verbatim>\<open>'euclidean'\<close>. A
  heuristic or algorithm kind is a string at run time, whatever its declared type.
\<close>

definition astar :: "Graph \<Rightarrow> string \<Rightarrow> string \<Rightarrow> string option \<Rightarrow> run" where
  "astar graph startNodeId goalNodeId heuristicType =
     (let h = (case heuristicType of None \<Rightarrow> ''euclidean'' | Some t \<Rightarrow> t)
      in case findNode graph startNodeId of
           None \<Rightarrow> ([], Inr emptyResult)
         | Some startNode \<Rightarrow>
             (case findNode graph goalNodeId of
                None \<Rightarrow> ([], Inr emptyResult)
              | Some goalNode \<Rightarrow>
                  astar_loop graph goalNodeId goalNode h
                    [startItem startNodeId (calculateHeuristic startNode goalNode h)]
                    [] [startNodeId \<mapsto> 0] 0))"

subsection \<open>Dispatcher\<close>

definition runAlgorithm ::
  "Graph \<Rightarrow> string \<Rightarrow> string \<Rightarrow> string \<Rightarrow> string option \<Rightarrow> run"
where
  "runAlgorithm graph startNodeId goalNodeId algorithmType heuristicType =
     (let h = (case heuristicType of None \<Rightarrow> ''euclidean'' | Some t \<Rightarrow> t)
      in if algorithmType = ''bfs'' then bfs graph startNodeId goalNodeId
         else if algorithmType = ''dfs'' then dfs graph startNodeId goalNodeId
         else if algorithmType = ''dijkstra'' then dijkstra graph startNodeId goalNodeId
         else if algorithmType = ''astar'' then astar graph startNodeId goalNodeId (Some h)
         else ([], Inr emptyResult))"

subsection \<open>Example graphs\<close>

text \<open>
  The graph built by \<^verbatim>\<open>generateSampleGraph\<close>. The ids it draws at random
  (\<^verbatim>\<open>node-\<close> and \<^verbatim>\<open>edge-\<close> followed by a UUID prefix) are written \<open>n0\<close> to \<open>n5\<close> and \<open>e0\<close> to
  \<open>e5\<close>, in the order of creation.
\<close>

definition sampleNode :: "string \<Rightarrow> real \<Rightarrow> real \<Rightarrow> string \<Rightarrow> NodeType \<Rightarrow> Node" where
  "sampleNode i px py l t =
     \<lparr>node_id = i, node_x = px, node_y = py, node_label = Some l, node_type = t,
      node_shape = Some Circle\<rparr>"

definition sampleEdge :: "string \<Rightarrow> string \<Rightarrow> string \<Rightarrow> real \<Rightarrow> EdgeType \<Rightarrow> Edge" where
  "sampleEdge i s t w k = \<lparr>edge_id = i, source = s, target = t, weight = w, edge_type = k\<rparr>"

definition sampleGraph :: Graph where
  "sampleGraph =
     \<lparr>nodes = [sampleNode ''n0'' 150 150 ''Node 1'' NStart,
               sampleNode ''n1'' 300 100 ''Node 2'' NDefault,
               sampleNode ''n2'' 450 150 ''Node 3'' NDefault,
               sampleNode ''n3'' 150 300 ''Node 4'' NDefault,
               sampleNode ''n4'' 450 300 ''Node 5'' NDefault,
               sampleNode ''n5'' 300 400 ''Node 6'' NGoal],
      edges = [sampleEdge ''e0'' ''n0'' ''n1'' 2 Default,
               sampleEdge ''e1'' ''n1'' ''n2'' 3 Default,
               sampleEdge ''e2'' ''n0'' ''n3'' 4 Default,
               sampleEdge ''e3'' ''n2'' ''n4'' 5 Default,
               sampleEdge ''e4'' ''n3'' ''n5'' 6 Default,
               sampleEdge ''e5'' ''n4'' ''n5'' 7 Default]\<rparr>"



text \<open>A graph of one node and no edge, and a graph of one undirected edge of weight 5.\<close>

definition oneNodeGraph :: Graph where
  "oneNodeGraph = \<lparr>nodes = [sampleNode ''a'' 0 0 ''Node 1'' NDefault], edges = []\<rparr>"

definition undirectedPair :: Graph where
  "undirectedPair =
     \<lparr>nodes = [sampleNode ''a'' 0 0 ''Node 1'' NDefault,
               sampleNode ''b'' 3 4 ''Node 2'' NDefault],
      edges = [sampleEdge ''ab'' ''a'' ''b'' 5 Undirected]\<rparr>"

section \<open>Paths, reachability and the shape of a run\<close>

definition nodeIds :: "Graph \<Rightarrow> string set" where
  "nodeIds graph = set (map node_id (nodes graph))"

definition wellFormed :: "Graph \<Rightarrow> bool" where
  "wellFormed graph \<longleftrightarrow>
     (\<forall>e \<in> set (edges graph). source e \<in> nodeIds graph \<and> target e \<in> nodeIds graph)"

definition traversable :: "Graph \<Rightarrow> string \<Rightarrow> string \<Rightarrow> real \<Rightarrow> bool" where
  "traversable graph a b w \<longleftrightarrow>
     (\<exists>e \<in> set (edges graph). weight e = w \<and>
        ((source e = a \<and> target e = b) \<or>
         (edge_type e = Undirected \<and> target e = a \<and> source e = b)))"

inductive walk :: "Graph \<Rightarrow> string \<Rightarrow> string list \<Rightarrow> real \<Rightarrow> bool" for graph s where
  start: "walk graph s [s] 0"
| hop: "walk graph s p c \<Longrightarrow> traversable graph (last p) b w \<Longrightarrow> walk graph s (p @ [b]) (c + w)"

definition reachable :: "Graph \<Rightarrow> string \<Rightarrow> string \<Rightarrow> bool" where
  "reachable graph s v \<longleftrightarrow> (\<exists>p c. walk graph s p c \<and> last p = v)"

definition neighborList :: "Graph \<Rightarrow> string \<Rightarrow> (string \<times> real) list" where
  "neighborList graph nid = concat (map (neighborEntries nid) (edges graph))"

lemma neighborList_traversable:
  "(b, w) \<in> set (neighborList graph a) \<longleftrightarrow> traversable graph a b w"
  by (auto simp: neighborList_def neighborEntries_def traversable_def split: if_splits)

lemma getNeighbors_cases:
  "getNeighbors graph a =
     (if a \<in> nodeIds graph then Inr (neighborList graph a)
      else if neighborList graph a = [] then Inr [] else Inl TypeError)"
  by (simp add: getNeighbors_def neighborList_def nodeIds_def Let_def)

lemma getNeighbors_Inr:
  "getNeighbors graph a = Inr nbs \<Longrightarrow> nbs = neighborList graph a"
  by (auto simp: getNeighbors_cases split: if_splits)

lemma getNeighbors_node: "a \<in> nodeIds graph \<Longrightarrow> getNeighbors graph a = Inr (neighborList graph a)"
  by (simp add: getNeighbors_cases)

lemma findNode_Some:
  "nid \<in> set (map node_id (nodes graph)) \<Longrightarrow>
   \<exists>node. findNode graph nid = Some node \<and> node_id node = nid \<and> node \<in> set (nodes graph)"
  unfolding findNode_def
  by (cases "find (\<lambda>node. node_id node = nid) (nodes graph)")
     (auto simp: find_None_iff find_Some_iff)

lemma findNode_None: "nid \<notin> set (map node_id (nodes graph)) \<Longrightarrow> findNode graph nid = None"
  unfolding findNode_def by (auto simp: find_None_iff)

lemma traversable_nodeIds:
  "wellFormed graph \<Longrightarrow> traversable graph a b w \<Longrightarrow> a \<in> nodeIds graph \<and> b \<in> nodeIds graph"
  by (auto simp: wellFormed_def traversable_def)

lemma walk_nonempty: "walk graph s p c \<Longrightarrow> p \<noteq> []"
  by (induction rule: walk.induct) auto

lemma walk_hd: "walk graph s p c \<Longrightarrow> hd p = s"
  by (induction rule: walk.induct) (auto simp: walk_nonempty)

lemma walk_nodeIds:
  "walk graph s p c \<Longrightarrow> wellFormed graph \<Longrightarrow> s \<in> nodeIds graph \<Longrightarrow> set p \<subseteq> nodeIds graph"
  by (induction rule: walk.induct) (auto dest: traversable_nodeIds)

lemma walk_cost_nonneg:
  "walk graph s p c \<Longrightarrow> \<forall>e \<in> set (edges graph). 0 \<le> weight e \<Longrightarrow> 0 \<le> c"
  by (induction rule: walk.induct) (auto simp: traversable_def)

lemma reachable_refl: "reachable graph s s"
  unfolding reachable_def using walk.start [of graph s] by force

lemma reachable_step:
  "reachable graph s a \<Longrightarrow> traversable graph a b w \<Longrightarrow> reachable graph s b"
  unfolding reachable_def using walk.hop by fastforce

fun traceFrom ::
  "string \<Rightarrow> string list \<Rightarrow> nat \<Rightarrow> AlgorithmStepResult list \<Rightarrow> error + AlgorithmResult \<Rightarrow> bool"
where
  "traceFrom goal vis n [] out = (case out of Inl e \<Rightarrow> True | Inr r \<Rightarrow> False)"
| "traceFrom goal vis n (st # steps) out =
     (if isComplete st
      then steps = [] \<and> visited st = vis \<and>
           (case out of
              Inl e \<Rightarrow> False
            | Inr r \<Rightarrow>
                nodesVisited r = n \<and> pathLength r = length (r_path r) \<and>
                r_path r = s_path st \<and> r_pathEdges r = s_pathEdges st \<and>
                (case currentNodeId st of
                   None \<Rightarrow> r_path r = [] \<and> r_pathEdges r = [] \<and> pathCost r = 0
                 | Some v \<Rightarrow> v = goal))
      else (case currentNodeId st of
              None \<Rightarrow> False
            | Some v \<Rightarrow>
                v \<noteq> goal \<and> v \<notin> set vis \<and> visited st = vis @ [v] \<and>
                traceFrom goal (vis @ [v]) (Suc n) steps out))"

lemma traceFrom_shape:
  "traceFrom goal vis n steps (Inr r) \<Longrightarrow>
   \<exists>ns t. steps = ns @ [t] \<and> (\<forall>st \<in> set ns. \<not> isComplete st) \<and> isComplete t \<and>
          nodesVisited r = n + length ns \<and> visited t = vis @ map (the \<circ> currentNodeId) ns \<and>
          (\<forall>st \<in> set ns. currentNodeId st \<noteq> None)"
proof (induction steps arbitrary: vis n)
  case Nil
  then show ?case by simp
next
  case (Cons st steps)
  show ?case
  proof (cases "isComplete st")
    case True
    with Cons.prems show ?thesis
      by (intro exI [of _ "[]"] exI [of _ st]) simp
  next
    case False
    with Cons.prems obtain v where v: "currentNodeId st = Some v" "visited st = vis @ [v]"
      and rest: "traceFrom goal (vis @ [v]) (Suc n) steps (Inr r)"
      by (auto split: option.splits)
    from Cons.IH [OF rest] obtain ns t where
      "steps = ns @ [t]" "\<forall>st \<in> set ns. \<not> isComplete st" "isComplete t"
      "nodesVisited r = Suc n + length ns" "visited t = (vis @ [v]) @ map (the \<circ> currentNodeId) ns"
      "\<forall>st \<in> set ns. currentNodeId st \<noteq> None"
      by blast
    with False v show ?thesis
      by (intro exI [of _ "st # ns"] exI [of _ t]) simp
  qed
qed

lemma traceFrom_visited:
  "traceFrom goal vis n steps out \<Longrightarrow> goal \<notin> set vis \<Longrightarrow> distinct vis \<Longrightarrow>
   \<forall>st \<in> set steps. goal \<notin> set (visited st) \<and> distinct (visited st) \<and>
      (\<not> isComplete st \<longrightarrow> currentNodeId st \<noteq> None \<and> currentNodeId st \<noteq> Some goal)"
proof (induction steps arbitrary: vis n)
  case Nil
  then show ?case by simp
next
  case (Cons st steps)
  show ?case
  proof (cases "isComplete st")
    case True
    with Cons.prems show ?thesis by simp
  next
    case False
    with Cons.prems obtain v where v: "currentNodeId st = Some v" "visited st = vis @ [v]"
      "v \<noteq> goal" "v \<notin> set vis"
      and rest: "traceFrom goal (vis @ [v]) (Suc n) steps out"
      by (auto split: option.splits)
    from v Cons.prems have "goal \<notin> set (vis @ [v])" "distinct (vis @ [v])"
      by auto
    from Cons.IH [OF rest this] v Cons.prems show ?thesis
      by simp
  qed
qed

definition reachInv :: "Graph \<Rightarrow> string \<Rightarrow> string set \<Rightarrow> string list \<Rightarrow> nat \<Rightarrow> bool" where
  "reachInv graph s F vis n \<longleftrightarrow>
     distinct vis \<and> n = length vis \<and> (\<forall>v \<in> set vis \<union> F. reachable graph s v) \<and>
     s \<in> set vis \<union> F \<and>
     (\<forall>v \<in> set vis. \<forall>b w. traversable graph v b w \<longrightarrow> b \<in> set vis \<union> F)"

lemma reachInv_init: "reachInv graph s {s} [] 0"
  by (simp add: reachInv_def reachable_refl)

lemma reachInv_skip:
  "reachInv graph s F vis n \<Longrightarrow> F' \<subseteq> F \<Longrightarrow> F \<subseteq> F' \<union> set vis \<Longrightarrow> reachInv graph s F' vis n"
  unfolding reachInv_def by blast

lemma reachInv_expand:
  assumes "reachInv graph s F vis n" and "v \<in> F" and "v \<notin> set vis"
    and "F' \<subseteq> F \<union> {b. \<exists>w. traversable graph v b w}"
    and "F \<subseteq> F' \<union> {v}"
    and "\<forall>b w. traversable graph v b w \<longrightarrow> b \<in> set vis \<union> {v} \<union> F'"
  shows "reachInv graph s F' (vis @ [v]) (Suc n)"
proof -
  have "reachable graph s v"
    using assms(1,2) by (simp add: reachInv_def)
  then have "\<forall>b \<in> F'. reachable graph s b"
    using assms(1,4) reachable_step [of graph s v] unfolding reachInv_def by blast
  moreover have "\<forall>u \<in> set (vis @ [v]). \<forall>b w. traversable graph u b w \<longrightarrow> b \<in> set (vis @ [v]) \<union> F'"
  proof (intro ballI allI impI)
    fix u b w
    assume "u \<in> set (vis @ [v])" and t: "traversable graph u b w"
    then consider "u = v" | "u \<in> set vis"
      by auto
    then show "b \<in> set (vis @ [v]) \<union> F'"
    proof cases
      case 1
      with assms(6) t show ?thesis by auto
    next
      case 2
      with assms(1) t have "b \<in> set vis \<union> F"
        unfolding reachInv_def by blast
      with assms(5) show ?thesis by auto
    qed
  qed
  moreover have "s \<in> set (vis @ [v]) \<union> F'"
    using assms(1,5) unfolding reachInv_def by auto
  ultimately show ?thesis
    using assms(1,3) \<open>reachable graph s v\<close> unfolding reachInv_def by auto
qed

lemma reachInv_exhausted:
  assumes "reachInv graph s {} vis n"
  shows "set vis = {v. reachable graph s v} \<and> n = card {v. reachable graph s v}"
proof -
  have "last p \<in> set vis" if "walk graph s p c" for p c
    using that assms by (induction rule: walk.induct) (auto simp: reachInv_def)
  then have "set vis = {v. reachable graph s v}"
    using assms unfolding reachInv_def reachable_def by auto
  moreover have "card (set vis) = n"
    using assms by (simp add: reachInv_def distinct_card)
  ultimately show ?thesis by simp
qed

definition validItem :: "Graph \<Rightarrow> string \<Rightarrow> QueueItem \<Rightarrow> bool" where
  "validItem graph s item \<longleftrightarrow>
     walk graph s (path item) (cost item) \<and> last (path item) = nodeId item"

lemma validItem_start: "validItem graph s (startItem s p)"
  by (simp add: validItem_def startItem_def walk.start)

lemma validItem_pushed:
  "validItem graph s item \<Longrightarrow> traversable graph (nodeId item) b w \<Longrightarrow>
   validItem graph s (pushedItem graph item b (cost item + w) p)"
  unfolding validItem_def pushedItem_def using walk.hop [of graph s "path item" "cost item" b w]
  by simp

lemma nodeId_pushedItem [simp]: "nodeId (pushedItem graph item b c p) = b"
  by (simp add: pushedItem_def)

lemma cost_pushedItem [simp]: "cost (pushedItem graph item b c p) = c"
  by (simp add: pushedItem_def)

lemma priority_pushedItem [simp]: "priority (pushedItem graph item b c p) = p"
  by (simp add: pushedItem_def)

lemma path_pushedItem [simp]: "path (pushedItem graph item b c p) = path item @ [b]"
  by (simp add: pushedItem_def)

definition exhaustedRun :: "Graph \<Rightarrow> string \<Rightarrow> run \<Rightarrow> bool" where
  "exhaustedRun graph s r \<longleftrightarrow>
     fst r \<noteq> [] \<and> last (fst r) = exhaustedStep (visited (last (fst r))) \<and>
     set (visited (last (fst r))) = {v. reachable graph s v} \<and>
     snd r = Inr (exhaustedResult (card {v. reachable graph s v}))"

lemma exhaustedRun_prepend: "exhaustedRun graph s (steps, out) \<Longrightarrow> exhaustedRun graph s (st # steps, out)"
  by (simp add: exhaustedRun_def)

lemma exhaustedRun_exhausted:
  "reachInv graph s {} vis n \<Longrightarrow> exhaustedRun graph s ([exhaustedStep vis], Inr (exhaustedResult n))"
  using reachInv_exhausted [of graph s vis n] by (simp add: exhaustedRun_def exhaustedStep_def)



definition foundRun :: "Graph \<Rightarrow> string \<Rightarrow> string \<Rightarrow> run \<Rightarrow> bool" where
  "foundRun graph s goal r \<longleftrightarrow>
     (case snd r of
        Inl e \<Rightarrow> True
      | Inr res \<Rightarrow> walk graph s (r_path res) (pathCost res) \<and> last (r_path res) = goal)"

lemma foundRun_found:
  "validItem graph s item \<Longrightarrow> nodeId item = goal \<Longrightarrow>
   foundRun graph s goal ([goalStep item vis fr], Inr (goalResult item n))"
  by (simp add: foundRun_def validItem_def goalResult_def)

lemma reachInv_goal_unvisited:
  "reachInv graph s {} vis n \<Longrightarrow> reachable graph s goal \<Longrightarrow> goal \<in> set vis"
  using reachInv_exhausted [of graph s vis n] by simp

lemma sorted_map_const: "\<forall>x \<in> set xs. f x = (k :: nat) \<Longrightarrow> sorted (map f xs)"
  by (induction xs) auto

definition minimalRun :: "Graph \<Rightarrow> string \<Rightarrow> string \<Rightarrow> run \<Rightarrow> bool" where
  "minimalRun graph s goal r \<longleftrightarrow>
     (case snd r of
        Inl e \<Rightarrow> True
      | Inr res \<Rightarrow>
          r_path res = [] \<or>
          (\<forall>p c. walk graph s p c \<and> last p = goal \<longrightarrow> length (r_path res) \<le> length p))"

section \<open>Invariants of breadth-first search\<close>

lemma bfs_loop_rule:
  assumes inv: "I fr vis n"
    and exhausted: "\<And>vis n. I [] vis n \<Longrightarrow> Q ([exhaustedStep vis], Inr (exhaustedResult n))"
    and found: "\<And>item fr vis n. I (item # fr) vis n \<Longrightarrow> nodeId item = goal \<Longrightarrow>
       Q ([goalStep item vis fr], Inr (goalResult item n))"
    and skip: "\<And>item fr vis n. I (item # fr) vis n \<Longrightarrow> nodeId item \<noteq> goal \<Longrightarrow>
       nodeId item \<in> set vis \<Longrightarrow> I fr vis n"
    and thrown: "\<And>item fr vis n e. I (item # fr) vis n \<Longrightarrow> nodeId item \<noteq> goal \<Longrightarrow>
       nodeId item \<notin> set vis \<Longrightarrow> getNeighbors graph (nodeId item) = Inl e \<Longrightarrow>
       Q ([visitStep item (vis @ [nodeId item]) fr], Inl e)"
    and expand: "\<And>item fr vis n nbs. I (item # fr) vis n \<Longrightarrow> nodeId item \<noteq> goal \<Longrightarrow>
       nodeId item \<notin> set vis \<Longrightarrow> getNeighbors graph (nodeId item) = Inr nbs \<Longrightarrow>
       I (bfs_neighbors graph (vis @ [nodeId item]) item nbs fr) (vis @ [nodeId item]) (Suc n)"
    and prepend: "\<And>st steps out. Q (steps, out) \<Longrightarrow> Q (st # steps, out)"
  shows "Q (bfs_loop graph goal fr vis n)"
  using inv
proof (induction g \<equiv> graph gl \<equiv> goal fr vis n rule: bfs_loop.induct)
  case (1 vis n)
  then show ?case by (simp add: bfs_loop.simps exhausted)
next
  case (2 item fr vis n)
  show ?case
  proof (cases "nodeId item = goal")
    case True
    with 2 show ?thesis by (simp add: bfs_loop.simps found)
  next
    case notgoal: False
    show ?thesis
    proof (cases "nodeId item \<in> set vis")
      case True
      with notgoal 2 show ?thesis by (simp add: bfs_loop.simps skip)
    next
      case unvisited: False
      show ?thesis
      proof (cases "getNeighbors graph (nodeId item)")
        case (Inl e)
        with notgoal unvisited 2 show ?thesis by (simp add: bfs_loop.simps thrown)
      next
        case (Inr nbs)
        with notgoal unvisited 2 show ?thesis
          by (auto simp: bfs_loop.simps expand prepend split: prod.splits)
      qed
    qed
  qed
qed

lemma bfs_loop_traceFrom:
  "traceFrom goal vis n (fst (bfs_loop graph goal fr vis n)) (snd (bfs_loop graph goal fr vis n))"
proof (induction graph goal fr vis n rule: bfs_loop.induct)
  case (1 graph goalNodeId vis n)
  then show ?case
    by (simp add: bfs_loop.simps exhaustedStep_def exhaustedResult_def)
next
  case (2 graph goalNodeId item fr vis n)
  then show ?case
    by (auto simp: bfs_loop.simps goalStep_def goalResult_def visitStep_def
        split: sum.splits prod.splits)
qed

lemma bfs_neighbors_eq:
  "bfs_neighbors graph vis item nbs fr =
     fr @ map (\<lambda>(nb, w). pushedItem graph item nb (cost item + w) 0)
            (filter (\<lambda>(nb, w). nb \<notin> set vis) nbs)"
  by (induction nbs arbitrary: fr) auto

lemma bfs_neighbors_ids:
  "nodeId ` set (bfs_neighbors graph vis item nbs fr) =
     nodeId ` set fr \<union> {b. b \<notin> set vis \<and> (\<exists>w. (b, w) \<in> set nbs)}"
proof -
  have "nodeId ` (\<lambda>(nb, w). pushedItem graph item nb (cost item + w) 0) ` X = fst ` X"
    for X :: "(string \<times> real) set"
    by (simp add: image_image case_prod_beta)
  moreover have "fst ` set (filter (\<lambda>(nb, w). nb \<notin> set vis) nbs) =
      {b. b \<notin> set vis \<and> (\<exists>w. (b, w) \<in> set nbs)}"
    by (auto simp: image_iff)
  ultimately show ?thesis
    unfolding bfs_neighbors_eq by (simp add: image_Un)
qed

lemma bfs_loop_ok:
  assumes "wellFormed graph" and "nodeId ` set fr \<subseteq> nodeIds graph"
  shows "\<exists>r. snd (bfs_loop graph goal fr vis n) = Inr r"
proof (rule bfs_loop_rule [where I = "\<lambda>fr vis n. nodeId ` set fr \<subseteq> nodeIds graph"
      and Q = "\<lambda>run. \<exists>r. snd run = Inr r"])
  show "nodeId ` set fr \<subseteq> nodeIds graph" by fact
next
  fix item :: QueueItem and fr vis n nbs
  assume "nodeId ` set (item # fr) \<subseteq> nodeIds graph"
    and "getNeighbors graph (nodeId item) = Inr nbs"
  then show "nodeId ` set (bfs_neighbors graph (vis @ [nodeId item]) item nbs fr) \<subseteq> nodeIds graph"
    using assms(1) traversable_nodeIds [of graph "nodeId item"]
    by (auto simp: bfs_neighbors_ids dest!: getNeighbors_Inr simp: neighborList_traversable)
qed (auto simp: getNeighbors_cases)

lemma bfs_loop_unreachable:
  assumes "reachInv graph s (nodeId ` set fr) vis n" and "\<not> reachable graph s goal"
    and "wellFormed graph" and "nodeId ` set fr \<subseteq> nodeIds graph"
  shows "exhaustedRun graph s (bfs_loop graph goal fr vis n)"
proof (rule bfs_loop_rule [where I = "\<lambda>fr vis n. reachInv graph s (nodeId ` set fr) vis n \<and>
        nodeId ` set fr \<subseteq> nodeIds graph" and Q = "exhaustedRun graph s"])
  show "reachInv graph s (nodeId ` set fr) vis n \<and> nodeId ` set fr \<subseteq> nodeIds graph"
    using assms by simp
next
  fix vis n
  assume "reachInv graph s (nodeId ` set []) vis n \<and> nodeId ` set [] \<subseteq> nodeIds graph"
  then show "exhaustedRun graph s ([exhaustedStep vis], Inr (exhaustedResult n))"
    by (simp add: exhaustedRun_exhausted)
next
  fix item :: QueueItem and fr vis n
  assume "reachInv graph s (nodeId ` set (item # fr)) vis n \<and> nodeId ` set (item # fr) \<subseteq> nodeIds graph"
    and "nodeId item = goal"
  with assms(2) show "exhaustedRun graph s ([goalStep item vis fr], Inr (goalResult item n))"
    by (simp add: reachInv_def)
next
  fix item :: QueueItem and fr vis n
  assume "reachInv graph s (nodeId ` set (item # fr)) vis n \<and> nodeId ` set (item # fr) \<subseteq> nodeIds graph"
    and "nodeId item \<in> set vis"
  then show "reachInv graph s (nodeId ` set fr) vis n \<and> nodeId ` set fr \<subseteq> nodeIds graph"
    by (auto elim!: reachInv_skip)
next
  fix item :: QueueItem and fr vis n e
  assume "reachInv graph s (nodeId ` set (item # fr)) vis n \<and> nodeId ` set (item # fr) \<subseteq> nodeIds graph"
    and "getNeighbors graph (nodeId item) = Inl e"
  then show "exhaustedRun graph s ([visitStep item (vis @ [nodeId item]) fr], Inl e)"
    by (simp add: getNeighbors_cases)
next
  fix item :: QueueItem and fr vis n nbs
  assume inv: "reachInv graph s (nodeId ` set (item # fr)) vis n \<and> nodeId ` set (item # fr) \<subseteq> nodeIds graph"
    and unv: "nodeId item \<notin> set vis" and nb: "getNeighbors graph (nodeId item) = Inr nbs"
  let ?F' = "nodeId ` set (bfs_neighbors graph (vis @ [nodeId item]) item nbs fr)"
  have nbs: "(b, w) \<in> set nbs \<longleftrightarrow> traversable graph (nodeId item) b w" for b w
    using getNeighbors_Inr [OF nb] by (simp add: neighborList_traversable)
  have "reachInv graph s ?F' (vis @ [nodeId item]) (Suc n)"
    using inv unv by (intro reachInv_expand [where F = "nodeId ` set (item # fr)"])
      (auto simp: bfs_neighbors_ids nbs)
  moreover have "?F' \<subseteq> nodeIds graph"
    using inv assms(3) traversable_nodeIds [of graph "nodeId item"]
    by (auto simp: bfs_neighbors_ids nbs)
  ultimately show "reachInv graph s ?F' (vis @ [nodeId item]) (Suc n) \<and> ?F' \<subseteq> nodeIds graph"
    by simp
qed (rule exhaustedRun_prepend)

lemma bfs_neighbors_valid:
  assumes "validItem graph s item" and "\<forall>x \<in> set fr. validItem graph s x"
    and "getNeighbors graph (nodeId item) = Inr nbs"
  shows "\<forall>x \<in> set (bfs_neighbors graph vis item nbs fr). validItem graph s x"
  using assms getNeighbors_Inr [OF assms(3)]
  by (auto simp: bfs_neighbors_eq neighborList_traversable intro!: validItem_pushed)


lemma bfs_loop_found:
  assumes "reachInv graph s (nodeId ` set fr) vis n" and "reachable graph s goal"
    and "goal \<notin> set vis" and "\<forall>x \<in> set fr. validItem graph s x"
  shows "foundRun graph s goal (bfs_loop graph goal fr vis n)"
proof (rule bfs_loop_rule [where I = "\<lambda>fr vis n. reachInv graph s (nodeId ` set fr) vis n \<and>
        goal \<notin> set vis \<and> (\<forall>x \<in> set fr. validItem graph s x)" and Q = "foundRun graph s goal"])
  show "reachInv graph s (nodeId ` set fr) vis n \<and> goal \<notin> set vis \<and> (\<forall>x \<in> set fr. validItem graph s x)"
    using assms by simp
next
  fix vis n
  assume "reachInv graph s (nodeId ` set []) vis n \<and> goal \<notin> set vis \<and>
    (\<forall>x \<in> set []. validItem graph s x)"
  then show "foundRun graph s goal ([exhaustedStep vis], Inr (exhaustedResult n))"
    using reachInv_goal_unvisited [OF _ assms(2), of vis n] by simp
next
  fix item :: QueueItem and fr vis n
  assume "reachInv graph s (nodeId ` set (item # fr)) vis n \<and> goal \<notin> set vis \<and>
    (\<forall>x \<in> set (item # fr). validItem graph s x)"
    and "nodeId item \<in> set vis"
  then show "reachInv graph s (nodeId ` set fr) vis n \<and> goal \<notin> set vis \<and>
    (\<forall>x \<in> set fr. validItem graph s x)"
    by (auto elim!: reachInv_skip)
next
  fix item :: QueueItem and fr vis n nbs
  assume inv: "reachInv graph s (nodeId ` set (item # fr)) vis n \<and> goal \<notin> set vis \<and>
    (\<forall>x \<in> set (item # fr). validItem graph s x)"
    and ng: "nodeId item \<noteq> goal"
    and unv: "nodeId item \<notin> set vis" and nb: "getNeighbors graph (nodeId item) = Inr nbs"
  let ?fr' = "bfs_neighbors graph (vis @ [nodeId item]) item nbs fr"
  have nbs: "(b, w) \<in> set nbs \<longleftrightarrow> traversable graph (nodeId item) b w" for b w
    using getNeighbors_Inr [OF nb] by (simp add: neighborList_traversable)
  have "reachInv graph s (nodeId ` set ?fr') (vis @ [nodeId item]) (Suc n)"
    using inv unv by (intro reachInv_expand [where F = "nodeId ` set (item # fr)"])
      (auto simp: bfs_neighbors_ids nbs)
  moreover have "\<forall>x \<in> set ?fr'. validItem graph s x"
    using inv nb by (intro bfs_neighbors_valid) auto
  ultimately show "reachInv graph s (nodeId ` set ?fr') (vis @ [nodeId item]) (Suc n) \<and>
    goal \<notin> set (vis @ [nodeId item]) \<and> (\<forall>x \<in> set ?fr'. validItem graph s x)"
    using inv ng by auto
qed (auto simp: foundRun_found, auto simp: foundRun_def)

text \<open>The invariant of the queue of \<open>bfs\<close>.\<close>

definition bfsInv :: "Graph \<Rightarrow> string \<Rightarrow> string \<Rightarrow> QueueItem list \<Rightarrow> string list \<Rightarrow> bool" where
  "bfsInv graph s goal fr vis \<longleftrightarrow>
     goal \<notin> set vis \<and>
     sorted (map (\<lambda>x. length (path x)) fr) \<and>
     (\<forall>x \<in> set fr. \<forall>y \<in> set fr. length (path x) \<le> length (path y) + 1) \<and>
     (s \<in> set vis \<or> (\<exists>x \<in> set fr. nodeId x = s \<and> length (path x) = 1)) \<and>
     (\<forall>v \<in> set vis. \<forall>b w. traversable graph v b w \<longrightarrow>
        b \<in> set vis \<or>
        (\<exists>x \<in> set fr. nodeId x = b \<and>
           (\<forall>p c. walk graph s p c \<and> last p = v \<longrightarrow> length (path x) \<le> length p + 1)))"

lemma bfsInv_walk:
  assumes "walk graph s p c" and "bfsInv graph s goal fr vis"
  shows "last p \<in> set vis \<or> (\<exists>x \<in> set fr. length (path x) \<le> length p)"
  using assms
proof (induction rule: walk.induct)
  case start
  then have "s \<in> set vis \<or> (\<exists>x \<in> set fr. nodeId x = s \<and> length (path x) = 1)"
    by (simp add: bfsInv_def)
  then show ?case
    by force
next
  case (hop p c b w)
  then consider "last p \<in> set vis" | "\<exists>x \<in> set fr. length (path x) \<le> length p"
    by blast
  then show ?case
  proof cases
    case 1
    with hop.hyps hop.prems show ?thesis
      unfolding bfsInv_def by (metis last_snoc length_append_singleton Suc_eq_plus1)
  next
    case 2
    then show ?thesis by force
  qed
qed

lemma bfsInv_head:
  assumes "bfsInv graph s goal (item # fr) vis" and "nodeId item \<notin> set vis"
    and "walk graph s p c" and "last p = nodeId item"
  shows "length (path item) \<le> length p"
proof -
  from bfsInv_walk [OF assms(3,1)] assms(2,4)
  obtain x where "x \<in> set (item # fr)" "length (path x) \<le> length p"
    by auto
  moreover have "length (path item) \<le> length (path x)"
    using assms(1) \<open>x \<in> set (item # fr)\<close> by (auto simp: bfsInv_def)
  ultimately show ?thesis by simp
qed

lemma bfsInv_init: "bfsInv graph s goal [startItem s 0] []"
  by (simp add: bfsInv_def startItem_def)

lemma bfsInv_skip:
  assumes "bfsInv graph s goal (item # fr) vis" and "nodeId item \<in> set vis"
  shows "bfsInv graph s goal fr vis"
proof -
  have "s \<in> set vis \<or> (\<exists>x \<in> set fr. nodeId x = s \<and> length (path x) = 1)"
    using assms unfolding bfsInv_def by auto
  moreover have "\<forall>v \<in> set vis. \<forall>b w. traversable graph v b w \<longrightarrow>
        b \<in> set vis \<or>
        (\<exists>x \<in> set fr. nodeId x = b \<and>
           (\<forall>p c. walk graph s p c \<and> last p = v \<longrightarrow> length (path x) \<le> length p + 1))"
  proof (intro ballI allI impI)
    fix v b w
    assume "v \<in> set vis" "traversable graph v b w"
    with assms(1) have "b \<in> set vis \<or>
        (\<exists>x \<in> set (item # fr). nodeId x = b \<and>
           (\<forall>p c. walk graph s p c \<and> last p = v \<longrightarrow> length (path x) \<le> length p + 1))"
      unfolding bfsInv_def by blast
    with assms(2) show "b \<in> set vis \<or>
        (\<exists>x \<in> set fr. nodeId x = b \<and>
           (\<forall>p c. walk graph s p c \<and> last p = v \<longrightarrow> length (path x) \<le> length p + 1))"
      by auto
  qed
  ultimately show ?thesis
    using assms(1) unfolding bfsInv_def by simp
qed

lemma bfsInv_expand:
  assumes inv: "bfsInv graph s goal (item # fr) vis" and unv: "nodeId item \<notin> set vis"
    and ng: "nodeId item \<noteq> goal" and nb: "getNeighbors graph (nodeId item) = Inr nbs"
  shows "bfsInv graph s goal (bfs_neighbors graph (vis @ [nodeId item]) item nbs fr)
           (vis @ [nodeId item])"
proof -
  let ?v = "nodeId item" and ?k = "length (path item)"
  let ?vis = "vis @ [nodeId item]"
  let ?new = "map (\<lambda>(nb, w). pushedItem graph item nb (cost item + w) 0)
            (filter (\<lambda>(nb, w). nb \<notin> set ?vis) nbs)"
  let ?fr = "bfs_neighbors graph ?vis item nbs fr"
  have fr: "?fr = fr @ ?new"
    by (rule bfs_neighbors_eq)
  have nbs: "(b, w) \<in> set nbs \<longleftrightarrow> traversable graph ?v b w" for b w
    using getNeighbors_Inr [OF nb] by (simp add: neighborList_traversable)
  have new: "length (path x) = ?k + 1" if "x \<in> set ?new" for x
    using that by auto
  have lo: "?k \<le> length (path x)" if "x \<in> set fr" for x
    using inv that by (auto simp: bfsInv_def)
  have hi: "length (path x) \<le> ?k + 1" if "x \<in> set fr" for x
    using inv that by (auto simp: bfsInv_def)
  have 1: "sorted (map (\<lambda>x. length (path x)) ?fr)"
    unfolding fr map_append
  proof (rule sorted_append [THEN iffD2], intro conjI ballI)
    show "sorted (map (\<lambda>x. length (path x)) fr)"
      using inv by (simp add: bfsInv_def)
    show "sorted (map (\<lambda>x. length (path x)) ?new)"
      using new by (intro sorted_map_const [where k = "?k + 1"]) blast
    fix a b
    assume "a \<in> set (map (\<lambda>x. length (path x)) fr)"
      and "b \<in> set (map (\<lambda>x. length (path x)) ?new)"
    then obtain x y where "x \<in> set fr" "a = length (path x)" "y \<in> set ?new" "b = length (path y)"
      unfolding set_map by blast
    then show "a \<le> b"
      using hi [of x] new [of y] by simp
  qed
  have 2: "\<forall>x \<in> set ?fr. \<forall>y \<in> set ?fr. length (path x) \<le> length (path y) + 1"
  proof (intro ballI)
    fix x y
    assume "x \<in> set ?fr" "y \<in> set ?fr"
    then have "(x \<in> set fr \<or> x \<in> set ?new) \<and> (y \<in> set fr \<or> y \<in> set ?new)"
      unfolding fr by simp
    then show "length (path x) \<le> length (path y) + 1"
      using lo [of x] lo [of y] hi [of x] hi [of y] new [of x] new [of y] by linarith
  qed
  have 3: "s \<in> set ?vis \<or> (\<exists>x \<in> set ?fr. nodeId x = s \<and> length (path x) = 1)"
  proof -
    from inv have "s \<in> set vis \<or> (\<exists>x \<in> set (item # fr). nodeId x = s \<and> length (path x) = 1)"
      by (simp add: bfsInv_def)
    then show ?thesis
      unfolding fr by auto
  qed
  have 4: "\<forall>v \<in> set ?vis. \<forall>b w. traversable graph v b w \<longrightarrow>
        b \<in> set ?vis \<or>
        (\<exists>x \<in> set ?fr. nodeId x = b \<and>
           (\<forall>p c. walk graph s p c \<and> last p = v \<longrightarrow> length (path x) \<le> length p + 1))"
  proof (intro ballI allI impI)
    fix v b w
    assume v: "v \<in> set ?vis" and t: "traversable graph v b w"
    show "b \<in> set ?vis \<or>
        (\<exists>x \<in> set ?fr. nodeId x = b \<and>
           (\<forall>p c. walk graph s p c \<and> last p = v \<longrightarrow> length (path x) \<le> length p + 1))"
    proof (cases "v = ?v")
      case True
      show ?thesis
      proof (cases "b \<in> set ?vis")
        case False
        let ?x = "pushedItem graph item b (cost item + w) 0"
        from False t True have "?x \<in> set ?new"
          by (force simp: nbs)
        moreover have "length (path ?x) \<le> length p + 1" if "walk graph s p c" "last p = v" for p c
          using bfsInv_head [OF inv unv that(1)] that(2) True by simp
        ultimately show ?thesis
          unfolding fr by (intro disjI2 bexI [of _ ?x]) auto
      qed simp
    next
      case False
      with v have "v \<in> set vis" by simp
      with inv t have "b \<in> set vis \<or>
        (\<exists>x \<in> set (item # fr). nodeId x = b \<and>
           (\<forall>p c. walk graph s p c \<and> last p = v \<longrightarrow> length (path x) \<le> length p + 1))"
        unfolding bfsInv_def by blast
      then show ?thesis
        unfolding fr by auto
    qed
  qed
  from inv ng have "goal \<notin> set ?vis"
    by (simp add: bfsInv_def)
  with 1 2 3 4 show ?thesis
    unfolding bfsInv_def by blast
qed

lemma bfs_loop_minimal:
  assumes "bfsInv graph s goal fr vis"
  shows "minimalRun graph s goal (bfs_loop graph goal fr vis n)"
proof (rule bfs_loop_rule [where I = "\<lambda>fr vis n. bfsInv graph s goal fr vis"
      and Q = "minimalRun graph s goal"])
  show "bfsInv graph s goal fr vis" by fact
next
  fix item :: QueueItem and fr vis n
  assume inv: "bfsInv graph s goal (item # fr) vis" and g: "nodeId item = goal"
  then have "nodeId item \<notin> set vis"
    by (simp add: bfsInv_def)
  from bfsInv_head [OF inv this] g
  show "minimalRun graph s goal ([goalStep item vis fr], Inr (goalResult item n))"
    by (auto simp: minimalRun_def goalResult_def)
qed (auto simp: bfsInv_skip bfsInv_expand, auto simp: minimalRun_def exhaustedResult_def)

section \<open>Invariants of depth-first search\<close>

lemma dfs_neighbors_bfs:
  "dfs_neighbors graph vis item nbs fr = bfs_neighbors graph vis item nbs fr"
  by (induction nbs arbitrary: fr) auto

lemma dfs_loop_Nil:
  "dfs_loop graph goal [] vis n = ([exhaustedStep vis], Inr (exhaustedResult n))"
  by (simp add: dfs_loop.simps)

lemma dfs_loop_snoc:
  "dfs_loop graph goal (fr @ [item]) vis n =
     (if nodeId item = goal then ([goalStep item vis fr], Inr (goalResult item n))
      else if nodeId item \<in> set vis then dfs_loop graph goal fr vis n
      else (case getNeighbors graph (nodeId item) of
              Inl e \<Rightarrow> ([visitStep item (vis @ [nodeId item]) fr], Inl e)
            | Inr neighbors \<Rightarrow>
                (case dfs_loop graph goal
                        (bfs_neighbors graph (vis @ [nodeId item]) item neighbors fr)
                        (vis @ [nodeId item]) (Suc n) of
                   (steps, out) \<Rightarrow> (visitStep item (vis @ [nodeId item]) fr # steps, out))))"
  by (subst dfs_loop.simps) (simp add: dfs_neighbors_bfs split: sum.splits)

lemma dfs_loop_rule:
  assumes inv: "I fr vis n"
    and exhausted: "\<And>vis n. I [] vis n \<Longrightarrow> Q ([exhaustedStep vis], Inr (exhaustedResult n))"
    and found: "\<And>item fr vis n. I (fr @ [item]) vis n \<Longrightarrow> nodeId item = goal \<Longrightarrow>
       Q ([goalStep item vis fr], Inr (goalResult item n))"
    and skip: "\<And>item fr vis n. I (fr @ [item]) vis n \<Longrightarrow> nodeId item \<noteq> goal \<Longrightarrow>
       nodeId item \<in> set vis \<Longrightarrow> I fr vis n"
    and thrown: "\<And>item fr vis n e. I (fr @ [item]) vis n \<Longrightarrow> nodeId item \<noteq> goal \<Longrightarrow>
       nodeId item \<notin> set vis \<Longrightarrow> getNeighbors graph (nodeId item) = Inl e \<Longrightarrow>
       Q ([visitStep item (vis @ [nodeId item]) fr], Inl e)"
    and expand: "\<And>item fr vis n nbs. I (fr @ [item]) vis n \<Longrightarrow> nodeId item \<noteq> goal \<Longrightarrow>
       nodeId item \<notin> set vis \<Longrightarrow> getNeighbors graph (nodeId item) = Inr nbs \<Longrightarrow>
       I (bfs_neighbors graph (vis @ [nodeId item]) item nbs fr) (vis @ [nodeId item]) (Suc n)"
    and prepend: "\<And>st steps out. Q (steps, out) \<Longrightarrow> Q (st # steps, out)"
  shows "Q (dfs_loop graph goal fr vis n)"
  using inv
proof (induction g \<equiv> graph gl \<equiv> goal fr vis n rule: dfs_loop.induct)
  case (1 fr vis n)
  show ?case
  proof (cases fr rule: rev_cases)
    case Nil
    with 1 show ?thesis by (simp add: dfs_loop_Nil exhausted)
  next
    case (snoc fr0 item)
    show ?thesis
    proof (cases "nodeId item = goal")
      case True
      with snoc 1 show ?thesis by (simp add: dfs_loop_snoc found)
    next
      case notgoal: False
      show ?thesis
      proof (cases "nodeId item \<in> set vis")
        case True
        with notgoal snoc 1 show ?thesis by (simp add: dfs_loop_snoc skip)
      next
        case unvisited: False
        show ?thesis
        proof (cases "getNeighbors graph (nodeId item)")
          case (Inl e)
          with notgoal unvisited snoc 1 show ?thesis by (simp add: dfs_loop_snoc thrown)
        next
          case (Inr nbs)
          with notgoal unvisited snoc 1(3) have
            "I (bfs_neighbors graph (vis @ [nodeId item]) item nbs fr0) (vis @ [nodeId item]) (Suc n)"
            by (simp add: expand)
          with notgoal unvisited snoc Inr 1(2) [of nbs] show ?thesis
            by (auto simp: dfs_loop_snoc dfs_neighbors_bfs prepend split: prod.splits)
        qed
      qed
    qed
  qed
qed

lemma dfs_loop_traceFrom:
  "traceFrom goal vis n (fst (dfs_loop graph goal fr vis n)) (snd (dfs_loop graph goal fr vis n))"
proof (induction graph goal fr vis n rule: dfs_loop.induct)
  case (1 graph goal fr vis n)
  show ?case
  proof (cases fr rule: rev_cases)
    case Nil
    then show ?thesis
      by (simp add: dfs_loop_Nil exhaustedStep_def exhaustedResult_def)
  next
    case (snoc fr0 item)
    with 1 show ?thesis
      by (auto simp: dfs_loop_snoc dfs_neighbors_bfs goalStep_def goalResult_def visitStep_def
          split: sum.splits prod.splits)
  qed
qed

lemma dfs_loop_ok:
  assumes "wellFormed graph" and "nodeId ` set fr \<subseteq> nodeIds graph"
  shows "\<exists>r. snd (dfs_loop graph goal fr vis n) = Inr r"
proof (rule dfs_loop_rule [where I = "\<lambda>fr vis n. nodeId ` set fr \<subseteq> nodeIds graph"
      and Q = "\<lambda>run. \<exists>r. snd run = Inr r"])
  show "nodeId ` set fr \<subseteq> nodeIds graph" by fact
next
  fix item :: QueueItem and fr vis n nbs
  assume "nodeId ` set (fr @ [item]) \<subseteq> nodeIds graph"
    and "getNeighbors graph (nodeId item) = Inr nbs"
  then show "nodeId ` set (bfs_neighbors graph (vis @ [nodeId item]) item nbs fr) \<subseteq> nodeIds graph"
    using assms(1) traversable_nodeIds [of graph "nodeId item"]
    by (auto simp: bfs_neighbors_ids dest!: getNeighbors_Inr simp: neighborList_traversable)
qed (auto simp: getNeighbors_cases)

lemma dfs_loop_unreachable:
  assumes "reachInv graph s (nodeId ` set fr) vis n" and "\<not> reachable graph s goal"
    and "wellFormed graph" and "nodeId ` set fr \<subseteq> nodeIds graph"
  shows "exhaustedRun graph s (dfs_loop graph goal fr vis n)"
proof (rule dfs_loop_rule [where I = "\<lambda>fr vis n. reachInv graph s (nodeId ` set fr) vis n \<and>
        nodeId ` set fr \<subseteq> nodeIds graph" and Q = "exhaustedRun graph s"])
  show "reachInv graph s (nodeId ` set fr) vis n \<and> nodeId ` set fr \<subseteq> nodeIds graph"
    using assms by simp
next
  fix vis n
  assume "reachInv graph s (nodeId ` set []) vis n \<and> nodeId ` set [] \<subseteq> nodeIds graph"
  then show "exhaustedRun graph s ([exhaustedStep vis], Inr (exhaustedResult n))"
    by (simp add: exhaustedRun_exhausted)
next
  fix item :: QueueItem and fr vis n
  assume "reachInv graph s (nodeId ` set (fr @ [item])) vis n \<and> nodeId ` set (fr @ [item]) \<subseteq> nodeIds graph"
    and "nodeId item = goal"
  with assms(2) show "exhaustedRun graph s ([goalStep item vis fr], Inr (goalResult item n))"
    by (simp add: reachInv_def)
next
  fix item :: QueueItem and fr vis n
  assume "reachInv graph s (nodeId ` set (fr @ [item])) vis n \<and> nodeId ` set (fr @ [item]) \<subseteq> nodeIds graph"
    and "nodeId item \<in> set vis"
  then show "reachInv graph s (nodeId ` set fr) vis n \<and> nodeId ` set fr \<subseteq> nodeIds graph"
    by (auto elim!: reachInv_skip)
next
  fix item :: QueueItem and fr vis n e
  assume "reachInv graph s (nodeId ` set (fr @ [item])) vis n \<and> nodeId ` set (fr @ [item]) \<subseteq> nodeIds graph"
    and "getNeighbors graph (nodeId item) = Inl e"
  then show "exhaustedRun graph s ([visitStep item (vis @ [nodeId item]) fr], Inl e)"
    by (simp add: getNeighbors_cases)
next
  fix item :: QueueItem and fr vis n nbs
  assume inv: "reachInv graph s (nodeId ` set (fr @ [item])) vis n \<and> nodeId ` set (fr @ [item]) \<subseteq> nodeIds graph"
    and unv: "nodeId item \<notin> set vis" and nb: "getNeighbors graph (nodeId item) = Inr nbs"
  let ?F' = "nodeId ` set (bfs_neighbors graph (vis @ [nodeId item]) item nbs fr)"
  have nbs: "(b, w) \<in> set nbs \<longleftrightarrow> traversable graph (nodeId item) b w" for b w
    using getNeighbors_Inr [OF nb] by (simp add: neighborList_traversable)
  have "reachInv graph s ?F' (vis @ [nodeId item]) (Suc n)"
    using inv unv by (intro reachInv_expand [where F = "nodeId ` set (fr @ [item])"])
      (auto simp: bfs_neighbors_ids nbs)
  moreover have "?F' \<subseteq> nodeIds graph"
    using inv assms(3) traversable_nodeIds [of graph "nodeId item"]
    by (auto simp: bfs_neighbors_ids nbs)
  ultimately show "reachInv graph s ?F' (vis @ [nodeId item]) (Suc n) \<and> ?F' \<subseteq> nodeIds graph"
    by simp
qed (rule exhaustedRun_prepend)


lemma dfs_loop_found:
  assumes "reachInv graph s (nodeId ` set fr) vis n" and "reachable graph s goal"
    and "goal \<notin> set vis" and "\<forall>x \<in> set fr. validItem graph s x"
  shows "foundRun graph s goal (dfs_loop graph goal fr vis n)"
proof (rule dfs_loop_rule [where I = "\<lambda>fr vis n. reachInv graph s (nodeId ` set fr) vis n \<and>
        goal \<notin> set vis \<and> (\<forall>x \<in> set fr. validItem graph s x)" and Q = "foundRun graph s goal"])
  show "reachInv graph s (nodeId ` set fr) vis n \<and> goal \<notin> set vis \<and> (\<forall>x \<in> set fr. validItem graph s x)"
    using assms by simp
next
  fix vis n
  assume "reachInv graph s (nodeId ` set []) vis n \<and> goal \<notin> set vis \<and>
    (\<forall>x \<in> set []. validItem graph s x)"
  then show "foundRun graph s goal ([exhaustedStep vis], Inr (exhaustedResult n))"
    using reachInv_goal_unvisited [OF _ assms(2), of vis n] by simp
next
  fix item :: QueueItem and fr vis n
  assume "reachInv graph s (nodeId ` set (fr @ [item])) vis n \<and> goal \<notin> set vis \<and>
    (\<forall>x \<in> set (fr @ [item]). validItem graph s x)"
    and "nodeId item \<in> set vis"
  then show "reachInv graph s (nodeId ` set fr) vis n \<and> goal \<notin> set vis \<and>
    (\<forall>x \<in> set fr. validItem graph s x)"
    by (auto elim!: reachInv_skip)
next
  fix item :: QueueItem and fr vis n nbs
  assume inv: "reachInv graph s (nodeId ` set (fr @ [item])) vis n \<and> goal \<notin> set vis \<and>
    (\<forall>x \<in> set (fr @ [item]). validItem graph s x)"
    and ng: "nodeId item \<noteq> goal"
    and unv: "nodeId item \<notin> set vis" and nb: "getNeighbors graph (nodeId item) = Inr nbs"
  let ?fr' = "bfs_neighbors graph (vis @ [nodeId item]) item nbs fr"
  have nbs: "(b, w) \<in> set nbs \<longleftrightarrow> traversable graph (nodeId item) b w" for b w
    using getNeighbors_Inr [OF nb] by (simp add: neighborList_traversable)
  have "reachInv graph s (nodeId ` set ?fr') (vis @ [nodeId item]) (Suc n)"
    using inv unv by (intro reachInv_expand [where F = "nodeId ` set (fr @ [item])"])
      (auto simp: bfs_neighbors_ids nbs)
  moreover have "\<forall>x \<in> set ?fr'. validItem graph s x"
    using inv nb by (intro bfs_neighbors_valid) auto
  ultimately show "reachInv graph s (nodeId ` set ?fr') (vis @ [nodeId item]) (Suc n) \<and>
    goal \<notin> set (vis @ [nodeId item]) \<and> (\<forall>x \<in> set ?fr'. validItem graph s x)"
    using inv ng by auto
qed (auto simp: foundRun_found, auto simp: foundRun_def)

section \<open>Invariants of Dijkstra's search\<close>

lemma sort_key_Cons:
  assumes "sort_key f fr = item # fr'"
  shows "set fr = insert item (set fr')" and "\<forall>x \<in> set fr. f item \<le> f x"
proof -
  show "set fr = insert item (set fr')"
    using set_sort [of f fr] assms by simp
  have "sorted (map f (item # fr'))"
    using sorted_sort_key [of f fr] assms by simp
  then show "\<forall>x \<in> set fr. f item \<le> f x"
    unfolding \<open>set fr = insert item (set fr')\<close> by auto
qed

lemma sort_key_not_Nil: "fr \<noteq> [] \<Longrightarrow> sort_key f fr \<noteq> []"
  using length_sort [of f fr] by (metis length_0_conv)

lemma dijkstra_loop_Nil:
  "dijkstra_loop graph goal [] vis cs n = ([exhaustedStep vis], Inr (exhaustedResult n))"
  by (simp add: dijkstra_loop.simps)

lemma dijkstra_loop_sorted:
  assumes "sort_key cost fr = item # fr'"
  shows "dijkstra_loop graph goal fr vis cs n =
     (if nodeId item = goal then ([goalStep item vis fr'], Inr (goalResult item n))
      else if nodeId item \<in> set vis then dijkstra_loop graph goal fr' vis cs n
      else (case getNeighbors graph (nodeId item) of
              Inl e \<Rightarrow> ([visitStep item (vis @ [nodeId item]) fr'], Inl e)
            | Inr neighbors \<Rightarrow>
                (case dijkstra_neighbors graph item neighbors (fr', cs) of
                   (fr'', cs') \<Rightarrow>
                     (case dijkstra_loop graph goal fr'' (vis @ [nodeId item]) cs' (Suc n) of
                        (steps, out) \<Rightarrow> (visitStep item (vis @ [nodeId item]) fr' # steps, out)))))"
proof -
  from assms have "fr \<noteq> []" by auto
  with assms show ?thesis
    by (subst dijkstra_loop.simps) simp
qed

lemma dijkstra_loop_rule:
  assumes inv: "I fr vis cs n"
    and exhausted: "\<And>vis cs n. I [] vis cs n \<Longrightarrow> Q ([exhaustedStep vis], Inr (exhaustedResult n))"
    and found: "\<And>item fr fr' vis cs n. I fr vis cs n \<Longrightarrow> sort_key cost fr = item # fr' \<Longrightarrow>
       nodeId item = goal \<Longrightarrow> Q ([goalStep item vis fr'], Inr (goalResult item n))"
    and skip: "\<And>item fr fr' vis cs n. I fr vis cs n \<Longrightarrow> sort_key cost fr = item # fr' \<Longrightarrow>
       nodeId item \<noteq> goal \<Longrightarrow> nodeId item \<in> set vis \<Longrightarrow> I fr' vis cs n"
    and thrown: "\<And>item fr fr' vis cs n e. I fr vis cs n \<Longrightarrow> sort_key cost fr = item # fr' \<Longrightarrow>
       nodeId item \<noteq> goal \<Longrightarrow> nodeId item \<notin> set vis \<Longrightarrow>
       getNeighbors graph (nodeId item) = Inl e \<Longrightarrow>
       Q ([visitStep item (vis @ [nodeId item]) fr'], Inl e)"
    and expand: "\<And>item fr fr' vis cs n nbs fr'' cs'. I fr vis cs n \<Longrightarrow>
       sort_key cost fr = item # fr' \<Longrightarrow> nodeId item \<noteq> goal \<Longrightarrow> nodeId item \<notin> set vis \<Longrightarrow>
       getNeighbors graph (nodeId item) = Inr nbs \<Longrightarrow>
       dijkstra_neighbors graph item nbs (fr', cs) = (fr'', cs') \<Longrightarrow>
       I fr'' (vis @ [nodeId item]) cs' (Suc n)"
    and prepend: "\<And>st steps out. Q (steps, out) \<Longrightarrow> Q (st # steps, out)"
  shows "Q (dijkstra_loop graph goal fr vis cs n)"
  using inv
proof (induction g \<equiv> graph gl \<equiv> goal fr vis cs n rule: dijkstra_loop.induct)
  case (1 fr vis cs n)
  note IH = 1(1,2) and inv = 1(3)
  show ?case
  proof (cases "sort_key cost fr")
    case Nil
    then have "fr = []"
      using sort_key_not_Nil [of fr cost] by auto
    with inv show ?thesis
      by (simp add: dijkstra_loop_Nil exhausted)
  next
    case (Cons item fr')
    then have ne: "fr \<noteq> []" by auto
    note unfold = dijkstra_loop_sorted [OF Cons, of graph goal vis cs n]
    show ?thesis
    proof (cases "nodeId item = goal")
      case True
      with found [OF inv Cons] show ?thesis
        by (simp add: unfold)
    next
      case notgoal: False
      show ?thesis
      proof (cases "nodeId item \<in> set vis")
        case True
        from IH(1) [OF ne Cons notgoal True skip [OF inv Cons notgoal True]] notgoal True
        show ?thesis
          by (simp add: unfold)
      next
        case unvisited: False
        show ?thesis
        proof (cases "getNeighbors graph (nodeId item)")
          case (Inl e)
          with thrown [OF inv Cons notgoal unvisited Inl] notgoal unvisited show ?thesis
            by (simp add: unfold)
        next
          case (Inr nbs)
          obtain fr'' cs' where nb: "dijkstra_neighbors graph item nbs (fr', cs) = (fr'', cs')"
            by (cases "dijkstra_neighbors graph item nbs (fr', cs)")
          from IH(2) [OF ne Cons notgoal unvisited Inr nb [symmetric]
              expand [OF inv Cons notgoal unvisited Inr nb]]
          have "Q (dijkstra_loop graph goal fr'' (vis @ [nodeId item]) cs' (Suc n))" .
          with notgoal unvisited Inr nb show ?thesis
            by (cases "dijkstra_loop graph goal fr'' (vis @ [nodeId item]) cs' (Suc n)")
              (simp add: unfold prepend)
        qed
      qed
    qed
  qed
qed

lemma dijkstra_loop_traceFrom:
  "traceFrom goal vis n (fst (dijkstra_loop graph goal fr vis cs n))
     (snd (dijkstra_loop graph goal fr vis cs n))"
proof (induction graph goal fr vis cs n rule: dijkstra_loop.induct)
  case (1 graph goal fr vis cs n)
  show ?case
  proof (cases "sort_key cost fr")
    case Nil
    then have "fr = []"
      using sort_key_not_Nil [of fr cost] by auto
    then show ?thesis
      by (simp add: dijkstra_loop_Nil exhaustedStep_def exhaustedResult_def)
  next
    case (Cons item fr')
    then have ne: "fr \<noteq> []" by auto
    note unfold = dijkstra_loop_sorted [OF Cons, of graph goal vis cs n]
    show ?thesis
    proof (cases "nodeId item = goal")
      case True
      then show ?thesis
        by (simp add: unfold goalStep_def goalResult_def)
    next
      case notgoal: False
      show ?thesis
      proof (cases "nodeId item \<in> set vis")
        case True
        with 1(1) [OF ne Cons notgoal True] notgoal show ?thesis
          by (simp add: unfold)
      next
        case unvisited: False
        show ?thesis
        proof (cases "getNeighbors graph (nodeId item)")
          case (Inl e)
          with notgoal unvisited show ?thesis
            by (simp add: unfold visitStep_def)
        next
          case (Inr nbs)
          obtain fr'' cs' where nb: "dijkstra_neighbors graph item nbs (fr', cs) = (fr'', cs')"
            by (cases "dijkstra_neighbors graph item nbs (fr', cs)")
          from 1(2) [OF ne Cons notgoal unvisited Inr nb [symmetric]] notgoal unvisited Inr nb
          show ?thesis
            by (cases "dijkstra_loop graph goal fr'' (vis @ [nodeId item]) cs' (Suc n)")
              (simp add: unfold visitStep_def)
        qed
      qed
    qed
  qed
qed

lemma dijkstra_neighbors_spec:
  assumes "dijkstra_neighbors graph item nbs (fr, cs) = (fr', cs')"
  shows "\<exists>new. fr' = fr @ new \<and>
     (\<forall>x \<in> set new. \<exists>b w. (b, w) \<in> set nbs \<and>
        x = pushedItem graph item b (cost item + w) (cost item + w)) \<and>
     (\<forall>u. cs' u = cs u \<or> (\<exists>x \<in> set new. nodeId x = u \<and> cs' u = Some (cost x))) \<and>
     (\<forall>u c. cs u = Some c \<longrightarrow> (\<exists>c'. cs' u = Some c' \<and> c' \<le> c)) \<and>
     (\<forall>b w. (b, w) \<in> set nbs \<longrightarrow> (\<exists>c'. cs' b = Some c' \<and> c' \<le> cost item + w)) \<and>
     (\<forall>u. cs' u \<noteq> cs u \<longrightarrow>
        (\<exists>w. (u, w) \<in> set nbs \<and> (case cs u of None \<Rightarrow> True | Some c \<Rightarrow> cost item + w < c)))"
  using assms
proof (induction nbs arbitrary: fr cs)
  case Nil
  then show ?case by simp
next
  case (Cons bw nbs)
  obtain b w where bw: "bw = (b, w)" by (cases bw)
  let ?d = "cost item + w"
  let ?x = "pushedItem graph item b ?d ?d"
  define push where "push = (case cs b of None \<Rightarrow> True | Some c \<Rightarrow> ?d < c)"
  define fr1 where "fr1 = (if push then fr @ [?x] else fr)"
  define cs1 where "cs1 = (if push then cs(b \<mapsto> ?d) else cs)"
  have step: "dijkstra_neighbors graph item nbs (fr1, cs1) = (fr', cs')"
    using Cons.prems by (simp add: bw fr1_def cs1_def push_def Let_def split: if_splits)
  from Cons.IH [OF step] obtain new where new:
    "fr' = fr1 @ new"
    "\<forall>x \<in> set new. \<exists>b w. (b, w) \<in> set nbs \<and> x = pushedItem graph item b (cost item + w) (cost item + w)"
    "\<forall>u. cs' u = cs1 u \<or> (\<exists>x \<in> set new. nodeId x = u \<and> cs' u = Some (cost x))"
    "\<forall>u c. cs1 u = Some c \<longrightarrow> (\<exists>c'. cs' u = Some c' \<and> c' \<le> c)"
    "\<forall>b w. (b, w) \<in> set nbs \<longrightarrow> (\<exists>c'. cs' b = Some c' \<and> c' \<le> cost item + w)"
    "\<forall>u. cs' u \<noteq> cs1 u \<longrightarrow>
        (\<exists>w. (u, w) \<in> set nbs \<and> (case cs1 u of None \<Rightarrow> True | Some c \<Rightarrow> cost item + w < c))"
    by blast
  define new1 where "new1 = (if push then ?x # new else new)"
  have mono1: "\<exists>c'. cs1 u = Some c' \<and> c' \<le> c" if "cs u = Some c" for u c
    using that by (auto simp: cs1_def push_def)
  have head1: "\<exists>c'. cs1 b = Some c' \<and> c' \<le> ?d"
    by (cases "cs b") (auto simp: cs1_def push_def)
  have 1: "fr' = fr @ new1"
    using new(1) by (simp add: new1_def fr1_def)
  have 2: "\<forall>x \<in> set new1. \<exists>b w. (b, w) \<in> set (bw # nbs) \<and>
        x = pushedItem graph item b (cost item + w) (cost item + w)"
  proof
    fix x
    assume "x \<in> set new1"
    then consider "x = ?x" | "x \<in> set new"
      by (auto simp: new1_def split: if_splits)
    then show "\<exists>b w. (b, w) \<in> set (bw # nbs) \<and>
        x = pushedItem graph item b (cost item + w) (cost item + w)"
    proof cases
      case 1
      then show ?thesis
        unfolding bw by (intro exI [of _ b] exI [of _ w]) simp
    next
      case 2
      with new(2) obtain b' w' where "(b', w') \<in> set nbs"
        "x = pushedItem graph item b' (cost item + w') (cost item + w')"
        by blast
      then show ?thesis
        by (intro exI [of _ b'] exI [of _ w']) simp
    qed
  qed
  have 3: "\<forall>u. cs' u = cs u \<or> (\<exists>x \<in> set new1. nodeId x = u \<and> cs' u = Some (cost x))"
  proof
    fix u
    from new(3) consider "cs' u = cs1 u" | "\<exists>x \<in> set new. nodeId x = u \<and> cs' u = Some (cost x)"
      by blast
    then show "cs' u = cs u \<or> (\<exists>x \<in> set new1. nodeId x = u \<and> cs' u = Some (cost x))"
    proof cases
      case 1
      then show ?thesis
        by (auto simp: cs1_def new1_def)
    next
      case 2
      then show ?thesis
        by (auto simp: new1_def)
    qed
  qed
  have 4: "\<forall>u c. cs u = Some c \<longrightarrow> (\<exists>c'. cs' u = Some c' \<and> c' \<le> c)"
    using mono1 new(4) by (meson order_trans)
  have 5: "\<forall>b w. (b, w) \<in> set (bw # nbs) \<longrightarrow> (\<exists>c'. cs' b = Some c' \<and> c' \<le> cost item + w)"
  proof (intro allI impI)
    fix b' w'
    assume "(b', w') \<in> set (bw # nbs)"
    then consider "b' = b" "w' = w" | "(b', w') \<in> set nbs"
      by (auto simp: bw)
    then show "\<exists>c'. cs' b' = Some c' \<and> c' \<le> cost item + w'"
    proof cases
      case 1
      from head1 obtain c1 where "cs1 b = Some c1" "c1 \<le> ?d" by blast
      with new(4) obtain c' where "cs' b = Some c'" "c' \<le> c1" by blast
      with 1 \<open>c1 \<le> ?d\<close> show ?thesis by simp
    next
      case 2
      with new(5) show ?thesis by blast
    qed
  qed
  have 6: "\<forall>u. cs' u \<noteq> cs u \<longrightarrow>
        (\<exists>w. (u, w) \<in> set (bw # nbs) \<and> (case cs u of None \<Rightarrow> True | Some c \<Rightarrow> cost item + w < c))"
  proof (intro allI impI)
    fix u
    assume ne: "cs' u \<noteq> cs u"
    show "\<exists>w. (u, w) \<in> set (bw # nbs) \<and> (case cs u of None \<Rightarrow> True | Some c \<Rightarrow> cost item + w < c)"
    proof (cases "cs' u = cs1 u")
      case True
      with ne have "cs1 u \<noteq> cs u" by simp
      then have "u = b \<and> push"
        by (auto simp: cs1_def split: if_splits)
      then show ?thesis
        unfolding bw by (intro exI [of _ w]) (simp add: push_def)
    next
      case False
      with new(6) obtain w' where w': "(u, w') \<in> set nbs"
        "case cs1 u of None \<Rightarrow> True | Some c \<Rightarrow> cost item + w' < c"
        by blast
      have "case cs u of None \<Rightarrow> True | Some c \<Rightarrow> cost item + w' < c"
      proof (cases "cs u")
        case (Some c)
        with mono1 obtain c1 where "cs1 u = Some c1" "c1 \<le> c" by blast
        with w'(2) Some show ?thesis by simp
      qed simp
      with w'(1) show ?thesis by auto
    qed
  qed
  from 1 2 3 4 5 6 show ?case by blast
qed

lemma dijkstra_expand:
  assumes "getNeighbors graph (nodeId item) = Inr nbs"
    and "dijkstra_neighbors graph item nbs (fr', cs) = (fr'', cs')"
  obtains new where "fr'' = fr' @ new"
    and "\<forall>x \<in> set new. \<exists>b w. traversable graph (nodeId item) b w \<and>
           x = pushedItem graph item b (cost item + w) (cost item + w)"
    and "\<forall>u. cs' u = cs u \<or> (\<exists>x \<in> set new. nodeId x = u \<and> cs' u = Some (cost x))"
    and "\<forall>u c. cs u = Some c \<longrightarrow> (\<exists>c'. cs' u = Some c' \<and> c' \<le> c)"
    and "\<forall>b w. traversable graph (nodeId item) b w \<longrightarrow> (\<exists>c'. cs' b = Some c' \<and> c' \<le> cost item + w)"
    and "\<forall>u. cs' u \<noteq> cs u \<longrightarrow>
           (\<exists>w. traversable graph (nodeId item) u w \<and>
              (case cs u of None \<Rightarrow> True | Some c \<Rightarrow> cost item + w < c))"
proof -
  have nbs: "(b, w) \<in> set nbs \<longleftrightarrow> traversable graph (nodeId item) b w" for b w
    using getNeighbors_Inr [OF assms(1)] by (simp add: neighborList_traversable)
  from dijkstra_neighbors_spec [OF assms(2)] show thesis
    unfolding nbs by (elim exE conjE) (rule that)
qed

lemma dijkstra_loop_ok:
  assumes "wellFormed graph" and "nodeId ` set fr \<subseteq> nodeIds graph"
  shows "\<exists>r. snd (dijkstra_loop graph goal fr vis cs n) = Inr r"
proof (rule dijkstra_loop_rule [where I = "\<lambda>fr vis cs n. nodeId ` set fr \<subseteq> nodeIds graph"
      and Q = "\<lambda>run. \<exists>r. snd run = Inr r"])
  show "nodeId ` set fr \<subseteq> nodeIds graph" by fact
next
  fix item :: QueueItem and fr fr' vis cs n
  assume "nodeId ` set fr \<subseteq> nodeIds graph" and "sort_key cost fr = item # fr'"
  then show "nodeId ` set fr' \<subseteq> nodeIds graph"
    using sort_key_Cons(1) [of cost fr item fr'] by auto
next
  fix item :: QueueItem and fr fr' vis cs n e
  assume "nodeId ` set fr \<subseteq> nodeIds graph" and "sort_key cost fr = item # fr'"
    and "getNeighbors graph (nodeId item) = Inl e"
  then show "\<exists>r. snd ([visitStep item (vis @ [nodeId item]) fr'], Inl e) = Inr r"
    using sort_key_Cons(1) [of cost fr item fr'] by (auto simp: getNeighbors_cases)
next
  fix item :: QueueItem and fr fr' vis cs n nbs fr'' cs'
  assume ids: "nodeId ` set fr \<subseteq> nodeIds graph" and sk: "sort_key cost fr = item # fr'"
    and nb: "getNeighbors graph (nodeId item) = Inr nbs"
    and dn: "dijkstra_neighbors graph item nbs (fr', cs) = (fr'', cs')"
  from dijkstra_expand [OF nb dn] obtain new where new: "fr'' = fr' @ new"
    "\<forall>x \<in> set new. \<exists>b w. traversable graph (nodeId item) b w \<and>
           x = pushedItem graph item b (cost item + w) (cost item + w)"
    by blast
  have "nodeId x \<in> nodeIds graph" if "x \<in> set new" for x
  proof -
    from new(2) that obtain b w where "traversable graph (nodeId item) b w"
      "x = pushedItem graph item b (cost item + w) (cost item + w)"
      by blast
    then show ?thesis
      using traversable_nodeIds [OF assms(1)] by simp
  qed
  then show "nodeId ` set fr'' \<subseteq> nodeIds graph"
    using ids sort_key_Cons(1) [OF sk] unfolding new(1) by auto
qed auto


text \<open>
  The searches with \<open>costSoFar\<close>: every id with a recorded cost is settled or in the
  frontier.
\<close>

definition costReachInv ::
  "Graph \<Rightarrow> string \<Rightarrow> QueueItem list \<Rightarrow> string list \<Rightarrow> (string \<rightharpoonup> real) \<Rightarrow> nat \<Rightarrow> bool"
where
  "costReachInv graph s fr vis cs n \<longleftrightarrow>
     reachInv graph s (nodeId ` set fr) vis n \<and> nodeId ` set fr \<subseteq> nodeIds graph \<and>
     dom cs \<subseteq> set vis \<union> nodeId ` set fr"

lemma costReachInv_skip:
  assumes "costReachInv graph s fr vis cs n" and "set fr = insert item (set fr')"
    and "nodeId item \<in> set vis"
  shows "costReachInv graph s fr' vis cs n"
proof -
  have F: "nodeId ` set fr = insert (nodeId item) (nodeId ` set fr')"
    unfolding assms(2) by simp
  have 1: "reachInv graph s (nodeId ` set fr) vis n" and 2: "nodeId ` set fr \<subseteq> nodeIds graph"
    and 3: "dom cs \<subseteq> set vis \<union> nodeId ` set fr"
    using assms(1) by (simp_all add: costReachInv_def)
  have "reachInv graph s (nodeId ` set fr') vis n"
    using assms(3) by (intro reachInv_skip [OF 1 [unfolded F]]) auto
  moreover have "nodeId ` set fr' \<subseteq> nodeIds graph"
    using 2 unfolding F by simp
  moreover have "dom cs \<subseteq> set vis \<union> nodeId ` set fr'"
    using 3 assms(3) unfolding F by auto
  ultimately show ?thesis
    by (simp add: costReachInv_def)
qed

lemma costReachInv_expand:
  assumes inv: "costReachInv graph s fr vis cs n" and wf: "wellFormed graph"
    and frset: "set fr = insert item (set fr')" and unv: "nodeId item \<notin> set vis"
    and new: "fr'' = fr' @ new"
      "\<forall>x \<in> set new. \<exists>w. traversable graph (nodeId item) (nodeId x) w"
      "\<forall>u. cs' u = cs u \<or> (\<exists>x \<in> set new. nodeId x = u)"
      "\<forall>b w. traversable graph (nodeId item) b w \<longrightarrow> b \<in> dom cs'"
  shows "costReachInv graph s fr'' (vis @ [nodeId item]) cs' (Suc n)"
proof -
  let ?v = "nodeId item"
  let ?N = "nodeId ` set new"
  have F: "nodeId ` set fr = insert ?v (nodeId ` set fr')"
    unfolding frset by simp
  have F'': "nodeId ` set fr'' = nodeId ` set fr' \<union> ?N"
    unfolding new(1) by (simp add: image_Un)
  have N: "\<exists>w. traversable graph ?v b w" if "b \<in> ?N" for b
    using that new(2) by blast
  have dom': "dom cs' \<subseteq> set (vis @ [?v]) \<union> nodeId ` set fr''"
  proof
    fix u
    assume "u \<in> dom cs'"
    then have "u \<in> dom cs \<or> u \<in> ?N"
      using new(3) [rule_format, of u] by (cases "cs' u = cs u") (auto simp: domIff)
    moreover have "dom cs \<subseteq> set vis \<union> nodeId ` set fr"
      using inv by (simp add: costReachInv_def)
    ultimately show "u \<in> set (vis @ [?v]) \<union> nodeId ` set fr''"
      unfolding F F'' by auto
  qed
  have "reachInv graph s (nodeId ` set fr'') (vis @ [?v]) (Suc n)"
  proof (rule reachInv_expand [where F = "nodeId ` set fr"])
    show "reachInv graph s (nodeId ` set fr) vis n"
      using inv by (simp add: costReachInv_def)
    show "?v \<in> nodeId ` set fr"
      unfolding F by simp
    show "?v \<notin> set vis" by fact
    show "nodeId ` set fr'' \<subseteq> nodeId ` set fr \<union> {b. \<exists>w. traversable graph ?v b w}"
      unfolding F F'' using N by blast
    show "nodeId ` set fr \<subseteq> nodeId ` set fr'' \<union> {?v}"
      unfolding F F'' by blast
    show "\<forall>b w. traversable graph ?v b w \<longrightarrow> b \<in> set vis \<union> {?v} \<union> nodeId ` set fr''"
      using new(4) dom' by auto
  qed
  moreover have "nodeId ` set fr'' \<subseteq> nodeIds graph"
  proof -
    have "b \<in> nodeIds graph" if "b \<in> ?N" for b
      using N [OF that] traversable_nodeIds [OF wf] by blast
    moreover have "nodeId ` set fr \<subseteq> nodeIds graph"
      using inv by (simp add: costReachInv_def)
    ultimately show ?thesis
      unfolding F F'' by blast
  qed
  ultimately show ?thesis
    using dom' by (simp add: costReachInv_def)
qed

lemma dijkstra_costReachInv_expand:
  assumes inv: "costReachInv graph s fr vis cs n" and wf: "wellFormed graph"
    and sk: "sort_key cost fr = item # fr'" and unv: "nodeId item \<notin> set vis"
    and nb: "getNeighbors graph (nodeId item) = Inr nbs"
    and dn: "dijkstra_neighbors graph item nbs (fr', cs) = (fr'', cs')"
  shows "costReachInv graph s fr'' (vis @ [nodeId item]) cs' (Suc n)"
proof -
  let ?v = "nodeId item"
  from dijkstra_expand [OF nb dn] obtain new where new: "fr'' = fr' @ new"
    "\<forall>x \<in> set new. \<exists>b w. traversable graph ?v b w \<and>
           x = pushedItem graph item b (cost item + w) (cost item + w)"
    "\<forall>u. cs' u = cs u \<or> (\<exists>x \<in> set new. nodeId x = u \<and> cs' u = Some (cost x))"
    "\<forall>b w. traversable graph ?v b w \<longrightarrow> (\<exists>c'. cs' b = Some c' \<and> c' \<le> cost item + w)"
    by blast
  have "\<exists>w. traversable graph ?v (nodeId x) w" if "x \<in> set new" for x
  proof -
    from new(2) that obtain b w where "traversable graph (nodeId item) b w"
      "x = pushedItem graph item b (cost item + w) (cost item + w)"
      by blast
    then show ?thesis
      by auto
  qed
  moreover have "\<forall>u. cs' u = cs u \<or> (\<exists>x \<in> set new. nodeId x = u)"
    using new(3) by blast
  moreover have "\<forall>b w. traversable graph ?v b w \<longrightarrow> b \<in> dom cs'"
    using new(4) by blast
  ultimately show ?thesis
    using costReachInv_expand [OF inv wf sort_key_Cons(1) [OF sk] unv new(1)] by blast
qed

lemma costReachInv_init: "s \<in> nodeIds graph \<Longrightarrow> costReachInv graph s [startItem s p] [] [s \<mapsto> 0] 0"
  using reachInv_init [of graph s] by (simp add: costReachInv_def startItem_def)

lemma dijkstra_loop_unreachable:
  assumes "costReachInv graph s fr vis cs n" and "\<not> reachable graph s goal"
    and "wellFormed graph"
  shows "exhaustedRun graph s (dijkstra_loop graph goal fr vis cs n)"
proof (rule dijkstra_loop_rule [where I = "costReachInv graph s" and Q = "exhaustedRun graph s"])
  show "costReachInv graph s fr vis cs n" by fact
next
  fix vis :: "string list" and cs :: "string \<rightharpoonup> real" and n
  assume "costReachInv graph s [] vis cs n"
  then show "exhaustedRun graph s ([exhaustedStep vis], Inr (exhaustedResult n))"
    by (simp add: exhaustedRun_exhausted costReachInv_def)
next
  fix item :: QueueItem and fr fr' vis cs n
  assume "costReachInv graph s fr vis cs n" and "sort_key cost fr = item # fr'"
    and "nodeId item = goal"
  with assms(2) show "exhaustedRun graph s ([goalStep item vis fr'], Inr (goalResult item n))"
    using sort_key_Cons(1) [of cost fr item fr'] by (simp add: costReachInv_def reachInv_def)
next
  fix item :: QueueItem and fr fr' vis cs n
  assume "costReachInv graph s fr vis cs n" and "sort_key cost fr = item # fr'"
    and "nodeId item \<in> set vis"
  then show "costReachInv graph s fr' vis cs n"
    using sort_key_Cons(1) [of cost fr item fr'] costReachInv_skip by blast
next
  fix item :: QueueItem and fr fr' vis cs n e
  assume "costReachInv graph s fr vis cs n" and "sort_key cost fr = item # fr'"
    and "getNeighbors graph (nodeId item) = Inl e"
  then show "exhaustedRun graph s ([visitStep item (vis @ [nodeId item]) fr'], Inl e)"
    using sort_key_Cons(1) [of cost fr item fr'] by (auto simp: getNeighbors_cases costReachInv_def)
next
  fix item :: QueueItem and fr fr' vis cs n nbs fr'' cs'
  assume "costReachInv graph s fr vis cs n" and "sort_key cost fr = item # fr'"
    and "nodeId item \<notin> set vis" and "getNeighbors graph (nodeId item) = Inr nbs"
    and "dijkstra_neighbors graph item nbs (fr', cs) = (fr'', cs')"
  then show "costReachInv graph s fr'' (vis @ [nodeId item]) cs' (Suc n)"
    using assms(3) dijkstra_costReachInv_expand by blast
qed (rule exhaustedRun_prepend)












section \<open>Invariants of the A* search\<close>

lemma astar_loop_Nil:
  "astar_loop graph goal goalNode ht [] vis cs n = ([exhaustedStep vis], Inr (exhaustedResult n))"
  by (simp add: astar_loop.simps)

lemma astar_loop_sorted:
  assumes "sort_key priority fr = item # fr'"
  shows "astar_loop graph goal goalNode ht fr vis cs n =
     (if nodeId item = goal then ([goalStep item vis fr'], Inr (goalResult item n))
      else if nodeId item \<in> set vis then astar_loop graph goal goalNode ht fr' vis cs n
      else (case getNeighbors graph (nodeId item) of
              Inl e \<Rightarrow> ([visitStep item (vis @ [nodeId item]) fr'], Inl e)
            | Inr neighbors \<Rightarrow>
                (case astar_neighbors graph goalNode ht item neighbors (fr', cs) of
                   (fr'', cs') \<Rightarrow>
                     (case astar_loop graph goal goalNode ht fr'' (vis @ [nodeId item]) cs' (Suc n) of
                        (steps, out) \<Rightarrow> (visitStep item (vis @ [nodeId item]) fr' # steps, out)))))"
proof -
  from assms have "fr \<noteq> []" by auto
  with assms show ?thesis
    by (subst astar_loop.simps) simp
qed

lemma astar_loop_rule:
  assumes inv: "I fr vis cs n"
    and exhausted: "\<And>vis cs n. I [] vis cs n \<Longrightarrow> Q ([exhaustedStep vis], Inr (exhaustedResult n))"
    and found: "\<And>item fr fr' vis cs n. I fr vis cs n \<Longrightarrow> sort_key priority fr = item # fr' \<Longrightarrow>
       nodeId item = goal \<Longrightarrow> Q ([goalStep item vis fr'], Inr (goalResult item n))"
    and skip: "\<And>item fr fr' vis cs n. I fr vis cs n \<Longrightarrow> sort_key priority fr = item # fr' \<Longrightarrow>
       nodeId item \<noteq> goal \<Longrightarrow> nodeId item \<in> set vis \<Longrightarrow> I fr' vis cs n"
    and thrown: "\<And>item fr fr' vis cs n e. I fr vis cs n \<Longrightarrow> sort_key priority fr = item # fr' \<Longrightarrow>
       nodeId item \<noteq> goal \<Longrightarrow> nodeId item \<notin> set vis \<Longrightarrow>
       getNeighbors graph (nodeId item) = Inl e \<Longrightarrow>
       Q ([visitStep item (vis @ [nodeId item]) fr'], Inl e)"
    and expand: "\<And>item fr fr' vis cs n nbs fr'' cs'. I fr vis cs n \<Longrightarrow>
       sort_key priority fr = item # fr' \<Longrightarrow> nodeId item \<noteq> goal \<Longrightarrow> nodeId item \<notin> set vis \<Longrightarrow>
       getNeighbors graph (nodeId item) = Inr nbs \<Longrightarrow>
       astar_neighbors graph goalNode ht item nbs (fr', cs) = (fr'', cs') \<Longrightarrow>
       I fr'' (vis @ [nodeId item]) cs' (Suc n)"
    and prepend: "\<And>st steps out. Q (steps, out) \<Longrightarrow> Q (st # steps, out)"
  shows "Q (astar_loop graph goal goalNode ht fr vis cs n)"
  using inv
proof (induction g \<equiv> graph gl \<equiv> goal gn \<equiv> goalNode h \<equiv> ht fr vis cs n rule: astar_loop.induct)
  case (1 fr vis cs n)
  note IH = 1(1,2) and inv = 1(3)
  show ?case
  proof (cases "sort_key priority fr")
    case Nil
    then have "fr = []"
      using sort_key_not_Nil [of fr priority] by auto
    with inv show ?thesis
      by (simp add: astar_loop_Nil exhausted)
  next
    case (Cons item fr')
    then have ne: "fr \<noteq> []" by auto
    note unfold = astar_loop_sorted [OF Cons, of graph goal goalNode ht vis cs n]
    show ?thesis
    proof (cases "nodeId item = goal")
      case True
      with found [OF inv Cons] show ?thesis
        by (simp add: unfold)
    next
      case notgoal: False
      show ?thesis
      proof (cases "nodeId item \<in> set vis")
        case True
        from IH(1) [OF ne Cons notgoal True skip [OF inv Cons notgoal True]] notgoal True
        show ?thesis
          by (simp add: unfold)
      next
        case unvisited: False
        show ?thesis
        proof (cases "getNeighbors graph (nodeId item)")
          case (Inl e)
          with thrown [OF inv Cons notgoal unvisited Inl] notgoal unvisited show ?thesis
            by (simp add: unfold)
        next
          case (Inr nbs)
          obtain fr'' cs' where
            nb: "astar_neighbors graph goalNode ht item nbs (fr', cs) = (fr'', cs')"
            by (cases "astar_neighbors graph goalNode ht item nbs (fr', cs)")
          from IH(2) [OF ne Cons notgoal unvisited Inr nb [symmetric]
              expand [OF inv Cons notgoal unvisited Inr nb]]
          have "Q (astar_loop graph goal goalNode ht fr'' (vis @ [nodeId item]) cs' (Suc n))" .
          with notgoal unvisited Inr nb show ?thesis
            by (cases "astar_loop graph goal goalNode ht fr'' (vis @ [nodeId item]) cs' (Suc n)")
              (simp add: unfold prepend)
        qed
      qed
    qed
  qed
qed

lemma astar_loop_traceFrom:
  "traceFrom goal vis n (fst (astar_loop graph goal goalNode ht fr vis cs n))
     (snd (astar_loop graph goal goalNode ht fr vis cs n))"
proof (induction graph goal goalNode ht fr vis cs n rule: astar_loop.induct)
  case (1 graph goal goalNode ht fr vis cs n)
  show ?case
  proof (cases "sort_key priority fr")
    case Nil
    then have "fr = []"
      using sort_key_not_Nil [of fr priority] by auto
    then show ?thesis
      by (simp add: astar_loop_Nil exhaustedStep_def exhaustedResult_def)
  next
    case (Cons item fr')
    then have ne: "fr \<noteq> []" by auto
    note unfold = astar_loop_sorted [OF Cons, of graph goal goalNode ht vis cs n]
    show ?thesis
    proof (cases "nodeId item = goal")
      case True
      then show ?thesis
        by (simp add: unfold goalStep_def goalResult_def)
    next
      case notgoal: False
      show ?thesis
      proof (cases "nodeId item \<in> set vis")
        case True
        with 1(1) [OF ne Cons notgoal True] notgoal show ?thesis
          by (simp add: unfold)
      next
        case unvisited: False
        show ?thesis
        proof (cases "getNeighbors graph (nodeId item)")
          case (Inl e)
          with notgoal unvisited show ?thesis
            by (simp add: unfold visitStep_def)
        next
          case (Inr nbs)
          obtain fr'' cs' where
            nb: "astar_neighbors graph goalNode ht item nbs (fr', cs) = (fr'', cs')"
            by (cases "astar_neighbors graph goalNode ht item nbs (fr', cs)")
          from 1(2) [OF ne Cons notgoal unvisited Inr nb [symmetric]] notgoal unvisited Inr nb
          show ?thesis
            by (cases "astar_loop graph goal goalNode ht fr'' (vis @ [nodeId item]) cs' (Suc n)")
              (simp add: unfold visitStep_def)
        qed
      qed
    qed
  qed
qed

lemma findNode_nodeIds: "findNode graph u = Some nd \<Longrightarrow> u \<in> nodeIds graph"
  unfolding findNode_def nodeIds_def by (auto simp: find_Some_iff)

lemma findNode_Some_iff: "(\<exists>nd. findNode graph u = Some nd) \<longleftrightarrow> u \<in> nodeIds graph"
proof
  assume "\<exists>nd. findNode graph u = Some nd"
  then show "u \<in> nodeIds graph"
    using findNode_nodeIds by blast
next
  assume "u \<in> nodeIds graph"
  then show "\<exists>nd. findNode graph u = Some nd"
    using findNode_Some [of u graph] unfolding nodeIds_def by blast
qed

text \<open>What the loop over the neighbours does to the frontier and to the domain of \<open>costSoFar\<close>.\<close>

lemma astar_neighbors_ids:
  assumes "astar_neighbors graph goalNode ht item nbs (fr, cs) = (fr', cs')"
  shows "\<exists>new. fr' = fr @ new \<and>
     (\<forall>x \<in> set new. nodeId x \<in> nodeIds graph \<and> (\<exists>w. (nodeId x, w) \<in> set nbs)) \<and>
     (\<forall>u. cs' u = cs u \<or>
        ((\<exists>w. (u, w) \<in> set nbs) \<and> (u \<in> nodeIds graph \<longrightarrow> u \<in> nodeId ` set new))) \<and>
     dom cs \<subseteq> dom cs' \<and>
     (\<forall>b w. (b, w) \<in> set nbs \<longrightarrow> b \<in> dom cs')"
  using assms
proof (induction nbs arbitrary: fr cs)
  case Nil
  then show ?case by simp
next
  case (Cons bw nbs)
  obtain b w where bw: "bw = (b, w)" by (cases bw)
  obtain d where d: "d = (case cs (nodeId item) of None \<Rightarrow> 0 | Some c \<Rightarrow> c) + w"
    by simp
  show ?case
  proof (cases "case cs b of None \<Rightarrow> True | Some c \<Rightarrow> d < c")
    case False
    then have step: "astar_neighbors graph goalNode ht item nbs (fr, cs) = (fr', cs')"
      using Cons.prems unfolding d by (simp add: bw Let_def)
    from False have b: "b \<in> dom cs"
      by (cases "cs b") auto
    from Cons.IH [OF step] obtain new where new:
      "fr' = fr @ new"
      "\<forall>x \<in> set new. nodeId x \<in> nodeIds graph \<and> (\<exists>w. (nodeId x, w) \<in> set nbs)"
      "\<forall>u. cs' u = cs u \<or>
        ((\<exists>w. (u, w) \<in> set nbs) \<and> (u \<in> nodeIds graph \<longrightarrow> u \<in> nodeId ` set new))"
      "dom cs \<subseteq> dom cs'"
      "\<forall>b w. (b, w) \<in> set nbs \<longrightarrow> b \<in> dom cs'"
      by blast
    have "\<forall>x \<in> set new. nodeId x \<in> nodeIds graph \<and> (\<exists>w. (nodeId x, w) \<in> set (bw # nbs))"
      using new(2) by auto
    moreover have "\<forall>b w. (b, w) \<in> set (bw # nbs) \<longrightarrow> b \<in> dom cs'"
      using new(4,5) b unfolding bw by auto
    moreover have "\<forall>u. cs' u = cs u \<or>
        ((\<exists>w. (u, w) \<in> set (bw # nbs)) \<and> (u \<in> nodeIds graph \<longrightarrow> u \<in> nodeId ` set new))"
      using new(3) by auto
    ultimately show ?thesis
      using new(1,4) by blast
  next
    case push: True
    show ?thesis
    proof (cases "findNode graph b")
      case None
      then have step: "astar_neighbors graph goalNode ht item nbs (fr, cs(b \<mapsto> d)) = (fr', cs')"
        using Cons.prems push unfolding d by (simp add: bw Let_def)
      from None have nb: "b \<notin> nodeIds graph"
        using findNode_Some_iff [of graph b] by simp
      from Cons.IH [OF step] obtain new where new:
        "fr' = fr @ new"
        "\<forall>x \<in> set new. nodeId x \<in> nodeIds graph \<and> (\<exists>w. (nodeId x, w) \<in> set nbs)"
        "\<forall>u. cs' u = (cs(b \<mapsto> d)) u \<or>
          ((\<exists>w. (u, w) \<in> set nbs) \<and> (u \<in> nodeIds graph \<longrightarrow> u \<in> nodeId ` set new))"
        "dom (cs(b \<mapsto> d)) \<subseteq> dom cs'"
        "\<forall>b w. (b, w) \<in> set nbs \<longrightarrow> b \<in> dom cs'"
        by blast
      have "\<forall>x \<in> set new. nodeId x \<in> nodeIds graph \<and> (\<exists>w. (nodeId x, w) \<in> set (bw # nbs))"
        using new(2) by auto
      moreover have "\<forall>u. cs' u = cs u \<or>
          ((\<exists>w. (u, w) \<in> set (bw # nbs)) \<and> (u \<in> nodeIds graph \<longrightarrow> u \<in> nodeId ` set new))"
      proof
        fix u
        from new(3) [rule_format, of u] nb show "cs' u = cs u \<or>
          ((\<exists>w. (u, w) \<in> set (bw # nbs)) \<and> (u \<in> nodeIds graph \<longrightarrow> u \<in> nodeId ` set new))"
          unfolding bw by (cases "u = b") auto
      qed
      moreover have "dom cs \<subseteq> dom cs'"
        using new(4) by auto
      moreover have "\<forall>b w. (b, w) \<in> set (bw # nbs) \<longrightarrow> b \<in> dom cs'"
        using new(4,5) unfolding bw by auto
      ultimately show ?thesis
        using new(1) by blast
    next
      case (Some nd)
      let ?x = "pushedItem graph item b d (d + calculateHeuristic nd goalNode ht)"
      from Some have step:
        "astar_neighbors graph goalNode ht item nbs (fr @ [?x], cs(b \<mapsto> d)) = (fr', cs')"
        using Cons.prems push unfolding d by (simp add: bw Let_def)
      from Some have nb: "b \<in> nodeIds graph"
        by (rule findNode_nodeIds)
      from Cons.IH [OF step] obtain new where new:
        "fr' = (fr @ [?x]) @ new"
        "\<forall>x \<in> set new. nodeId x \<in> nodeIds graph \<and> (\<exists>w. (nodeId x, w) \<in> set nbs)"
        "\<forall>u. cs' u = (cs(b \<mapsto> d)) u \<or>
          ((\<exists>w. (u, w) \<in> set nbs) \<and> (u \<in> nodeIds graph \<longrightarrow> u \<in> nodeId ` set new))"
        "dom (cs(b \<mapsto> d)) \<subseteq> dom cs'"
        "\<forall>b w. (b, w) \<in> set nbs \<longrightarrow> b \<in> dom cs'"
        by blast
      have "fr' = fr @ (?x # new)"
        using new(1) by simp
      moreover have "\<forall>x \<in> set (?x # new). nodeId x \<in> nodeIds graph \<and>
          (\<exists>w. (nodeId x, w) \<in> set (bw # nbs))"
        using new(2) nb unfolding bw by auto
      moreover have "\<forall>u. cs' u = cs u \<or>
          ((\<exists>w. (u, w) \<in> set (bw # nbs)) \<and>
           (u \<in> nodeIds graph \<longrightarrow> u \<in> nodeId ` set (?x # new)))"
      proof
        fix u
        from new(3) [rule_format, of u] show "cs' u = cs u \<or>
          ((\<exists>w. (u, w) \<in> set (bw # nbs)) \<and>
           (u \<in> nodeIds graph \<longrightarrow> u \<in> nodeId ` set (?x # new)))"
          unfolding bw by (cases "u = b") auto
      qed
      moreover have "dom cs \<subseteq> dom cs'"
        using new(4) by auto
      moreover have "\<forall>b w. (b, w) \<in> set (bw # nbs) \<longrightarrow> b \<in> dom cs'"
        using new(4,5) unfolding bw by auto
      ultimately show ?thesis
        by blast
    qed
  qed
qed

lemma astar_costReachInv_expand:
  assumes inv: "costReachInv graph s fr vis cs n" and wf: "wellFormed graph"
    and sk: "sort_key priority fr = item # fr'" and unv: "nodeId item \<notin> set vis"
    and nb: "getNeighbors graph (nodeId item) = Inr nbs"
    and an: "astar_neighbors graph goalNode ht item nbs (fr', cs) = (fr'', cs')"
  shows "costReachInv graph s fr'' (vis @ [nodeId item]) cs' (Suc n)"
proof -
  let ?v = "nodeId item"
  have nbs: "(b, w) \<in> set nbs \<longleftrightarrow> traversable graph ?v b w" for b w
    using getNeighbors_Inr [OF nb] by (simp add: neighborList_traversable)
  from astar_neighbors_ids [OF an] obtain new where new: "fr'' = fr' @ new"
    "\<forall>x \<in> set new. nodeId x \<in> nodeIds graph \<and> (\<exists>w. traversable graph ?v (nodeId x) w)"
    "\<forall>u. cs' u = cs u \<or>
        ((\<exists>w. traversable graph ?v u w) \<and> (u \<in> nodeIds graph \<longrightarrow> u \<in> nodeId ` set new))"
    "\<forall>b w. traversable graph ?v b w \<longrightarrow> b \<in> dom cs'"
    unfolding nbs by blast
  have "\<forall>x \<in> set new. \<exists>w. traversable graph ?v (nodeId x) w"
    using new(2) by blast
  moreover have "\<forall>u. cs' u = cs u \<or> (\<exists>x \<in> set new. nodeId x = u)"
  proof
    fix u
    from new(3) [rule_format, of u] traversable_nodeIds [OF wf, of ?v u]
    show "cs' u = cs u \<or> (\<exists>x \<in> set new. nodeId x = u)"
      by auto
  qed
  ultimately show ?thesis
    using costReachInv_expand [OF inv wf sort_key_Cons(1) [OF sk] unv new(1)] new(4) by blast
qed



lemma astar_loop_ok:
  assumes "nodeId ` set fr \<subseteq> nodeIds graph"
  shows "\<exists>r. snd (astar_loop graph goal goalNode ht fr vis cs n) = Inr r"
proof (rule astar_loop_rule [where I = "\<lambda>fr vis cs n. nodeId ` set fr \<subseteq> nodeIds graph"
      and Q = "\<lambda>run. \<exists>r. snd run = Inr r"])
  show "nodeId ` set fr \<subseteq> nodeIds graph" by fact
next
  fix item :: QueueItem and fr fr' vis cs n
  assume "nodeId ` set fr \<subseteq> nodeIds graph" and "sort_key priority fr = item # fr'"
  then show "nodeId ` set fr' \<subseteq> nodeIds graph"
    using sort_key_Cons(1) [of priority fr item fr'] by auto
next
  fix item :: QueueItem and fr fr' vis cs n e
  assume "nodeId ` set fr \<subseteq> nodeIds graph" and "sort_key priority fr = item # fr'"
    and "getNeighbors graph (nodeId item) = Inl e"
  then show "\<exists>r. snd ([visitStep item (vis @ [nodeId item]) fr'], Inl e) = Inr r"
    using sort_key_Cons(1) [of priority fr item fr'] by (auto simp: getNeighbors_cases)
next
  fix item :: QueueItem and fr fr' vis cs n nbs fr'' cs'
  assume ids: "nodeId ` set fr \<subseteq> nodeIds graph" and sk: "sort_key priority fr = item # fr'"
    and an: "astar_neighbors graph goalNode ht item nbs (fr', cs) = (fr'', cs')"
  from astar_neighbors_ids [OF an] obtain new where new: "fr'' = fr' @ new"
    "\<forall>x \<in> set new. nodeId x \<in> nodeIds graph \<and> (\<exists>w. (nodeId x, w) \<in> set nbs)"
    by blast
  then show "nodeId ` set fr'' \<subseteq> nodeIds graph"
    using ids sort_key_Cons(1) [OF sk] by auto
qed auto

lemma astar_loop_unreachable:
  assumes "costReachInv graph s fr vis cs n" and "\<not> reachable graph s goal"
    and "wellFormed graph"
  shows "exhaustedRun graph s (astar_loop graph goal goalNode ht fr vis cs n)"
proof (rule astar_loop_rule [where I = "costReachInv graph s" and Q = "exhaustedRun graph s"])
  show "costReachInv graph s fr vis cs n" by fact
next
  fix vis :: "string list" and cs :: "string \<rightharpoonup> real" and n
  assume "costReachInv graph s [] vis cs n"
  then show "exhaustedRun graph s ([exhaustedStep vis], Inr (exhaustedResult n))"
    by (simp add: exhaustedRun_exhausted costReachInv_def)
next
  fix item :: QueueItem and fr fr' vis cs n
  assume "costReachInv graph s fr vis cs n" and "sort_key priority fr = item # fr'"
    and "nodeId item = goal"
  with assms(2) show "exhaustedRun graph s ([goalStep item vis fr'], Inr (goalResult item n))"
    using sort_key_Cons(1) [of priority fr item fr'] by (simp add: costReachInv_def reachInv_def)
next
  fix item :: QueueItem and fr fr' vis cs n
  assume "costReachInv graph s fr vis cs n" and "sort_key priority fr = item # fr'"
    and "nodeId item \<in> set vis"
  then show "costReachInv graph s fr' vis cs n"
    using sort_key_Cons(1) [of priority fr item fr'] costReachInv_skip by blast
next
  fix item :: QueueItem and fr fr' vis cs n e
  assume "costReachInv graph s fr vis cs n" and "sort_key priority fr = item # fr'"
    and "getNeighbors graph (nodeId item) = Inl e"
  then show "exhaustedRun graph s ([visitStep item (vis @ [nodeId item]) fr'], Inl e)"
    using sort_key_Cons(1) [of priority fr item fr'] by (auto simp: getNeighbors_cases costReachInv_def)
next
  fix item :: QueueItem and fr fr' vis cs n nbs fr'' cs'
  assume "costReachInv graph s fr vis cs n" and "sort_key priority fr = item # fr'"
    and "nodeId item \<notin> set vis" and "getNeighbors graph (nodeId item) = Inr nbs"
    and "astar_neighbors graph goalNode ht item nbs (fr', cs) = (fr'', cs')"
  then show "costReachInv graph s fr'' (vis @ [nodeId item]) cs' (Suc n)"
    using assms(3) astar_costReachInv_expand by blast
qed (rule exhaustedRun_prepend)








subsection \<open>A* with a consistent heuristic\<close>













section \<open>The four searches from their initial state\<close>

lemma traceFrom_count:
  assumes "traceFrom goal vis n steps (Inr r)"
  shows "nodesVisited r = n + length (filter (\<lambda>st. \<not> isComplete st) steps)"
proof -
  from traceFrom_shape [OF assms] obtain ns t where
    "steps = ns @ [t]" "\<forall>st \<in> set ns. \<not> isComplete st" "isComplete t"
    "nodesVisited r = n + length ns"
    by blast
  then show ?thesis
    by simp
qed

lemma traceFrom_result:
  assumes "traceFrom goal vis n steps (Inr r)"
  shows "pathLength r = length (r_path r)"
proof -
  from traceFrom_shape [OF assms] obtain ns t where st: "steps = ns @ [t]" "isComplete t"
    by blast
  have "traceFrom goal vis' n' (ns @ [t]) (Inr r) \<Longrightarrow> isComplete t \<Longrightarrow>
      pathLength r = length (r_path r)" for vis' n'
    by (induction ns arbitrary: vis' n') (auto split: if_splits option.splits)
  with assms st show ?thesis
    by blast
qed

definition searches :: "Graph \<Rightarrow> string \<Rightarrow> string \<Rightarrow> string option \<Rightarrow> run set" where
  "searches graph s t h = {bfs graph s t, dfs graph s t, dijkstra graph s t, astar graph s t h}"

lemma astar_cases:
  obtains (missing) "s \<notin> nodeIds graph \<or> t \<notin> nodeIds graph"
      "astar graph s t h = ([], Inr emptyResult)"
    | (search) startNode goalNode where "findNode graph s = Some startNode"
      "findNode graph t = Some goalNode" "s \<in> nodeIds graph" "t \<in> nodeIds graph"
      "astar graph s t h =
         astar_loop graph t goalNode (case h of None \<Rightarrow> ''euclidean'' | Some k \<Rightarrow> k)
           [startItem s (calculateHeuristic startNode goalNode
              (case h of None \<Rightarrow> ''euclidean'' | Some k \<Rightarrow> k))]
           [] [s \<mapsto> 0] 0"
proof (cases "findNode graph s")
  case None
  then have "s \<notin> nodeIds graph"
    using findNode_Some_iff [of graph s] by simp
  with None show ?thesis
    by (intro missing) (simp_all add: astar_def)
next
  case s: (Some startNode)
  show ?thesis
  proof (cases "findNode graph t")
    case None
    then have "t \<notin> nodeIds graph"
      using findNode_Some_iff [of graph t] by simp
    with None s show ?thesis
      by (intro missing) (simp_all add: astar_def)
  next
    case (Some goalNode)
    with s show ?thesis
      by (intro search [of startNode goalNode]) (simp_all add: astar_def Let_def findNode_nodeIds)
  qed
qed

lemma searches_traceFrom:
  assumes "run \<in> searches graph s t h"
  shows "(run = astar graph s t h \<and> run = ([], Inr emptyResult) \<and>
          (s \<notin> nodeIds graph \<or> t \<notin> nodeIds graph)) \<or>
         traceFrom t [] 0 (fst run) (snd run)"
proof -
  from assms consider "run = bfs graph s t" | "run = dfs graph s t" | "run = dijkstra graph s t"
    | "run = astar graph s t h"
    by (auto simp: searches_def)
  then show ?thesis
  proof cases
    case 1
    then show ?thesis by (simp add: bfs_def bfs_loop_traceFrom)
  next
    case 2
    then show ?thesis by (simp add: dfs_def dfs_loop_traceFrom)
  next
    case 3
    then show ?thesis by (simp add: dijkstra_def dijkstra_loop_traceFrom)
  next
    case 4
    show ?thesis
      by (rule astar_cases [of s graph t h]) (simp_all add: 4 astar_loop_traceFrom)
  qed
qed

lemma searches_ok:
  assumes "run \<in> searches graph s t h" and "wellFormed graph" and "s \<in> nodeIds graph"
  shows "\<exists>r. snd run = Inr r"
proof -
  have ids: "nodeId ` set [startItem s p] \<subseteq> nodeIds graph" for p
    using assms(3) by (simp add: startItem_def)
  from assms consider "run = bfs graph s t" | "run = dfs graph s t" | "run = dijkstra graph s t"
    | "run = astar graph s t h"
    by (auto simp: searches_def)
  then show ?thesis
  proof cases
    case 1
    then show ?thesis using bfs_loop_ok [OF assms(2) ids] by (simp add: bfs_def)
  next
    case 2
    then show ?thesis using dfs_loop_ok [OF assms(2) ids] by (simp add: dfs_def)
  next
    case 3
    then show ?thesis using dijkstra_loop_ok [OF assms(2) ids] by (simp add: dijkstra_def)
  next
    case 4
    show ?thesis
      by (rule astar_cases [of s graph t h]) (simp_all add: 4 astar_loop_ok [OF ids])
  qed
qed

lemma searches_unreachable:
  assumes "run \<in> searches graph s t h" and "wellFormed graph" and "s \<in> nodeIds graph"
    and "t \<in> nodeIds graph" and "\<not> reachable graph s t"
  shows "exhaustedRun graph s run"
proof -
  have ids: "nodeId ` set [startItem s p] \<subseteq> nodeIds graph" for p
    using assms(3) by (simp add: startItem_def)
  have init: "reachInv graph s (nodeId ` set [startItem s p]) [] 0" for p
    using reachInv_init [of graph s] by (simp add: startItem_def)
  from assms consider "run = bfs graph s t" | "run = dfs graph s t" | "run = dijkstra graph s t"
    | "run = astar graph s t h"
    by (auto simp: searches_def)
  then show ?thesis
  proof cases
    case 1
    then show ?thesis
      using bfs_loop_unreachable [OF init assms(5,2) ids] by (simp add: bfs_def)
  next
    case 2
    then show ?thesis
      using dfs_loop_unreachable [OF init assms(5,2) ids] by (simp add: dfs_def)
  next
    case 3
    then show ?thesis
      using dijkstra_loop_unreachable [OF costReachInv_init [OF assms(3)] assms(5,2)]
      by (simp add: dijkstra_def)
  next
    case 4
    show ?thesis
    proof (rule astar_cases [of s graph t h])
      assume "s \<notin> nodeIds graph \<or> t \<notin> nodeIds graph"
      with assms(3,4) show ?thesis by simp
    next
      fix startNode goalNode
      assume "astar graph s t h =
         astar_loop graph t goalNode (case h of None \<Rightarrow> ''euclidean'' | Some k \<Rightarrow> k)
           [startItem s (calculateHeuristic startNode goalNode
              (case h of None \<Rightarrow> ''euclidean'' | Some k \<Rightarrow> k))]
           [] [s \<mapsto> 0] 0"
      then show ?thesis
        using astar_loop_unreachable [OF costReachInv_init [OF assms(3)] assms(5,2)]
        by (simp add: 4)
    qed
  qed
qed


lemma bfs_shortest:
  assumes "wellFormed graph" and "s \<in> nodeIds graph" and "reachable graph s t"
  shows "\<exists>steps r. bfs graph s t = (steps, Inr r) \<and> walk graph s (r_path r) (pathCost r) \<and>
     last (r_path r) = t \<and>
     (\<forall>p c. walk graph s p c \<and> last p = t \<longrightarrow> length (r_path r) \<le> length p)"
proof -
  have init: "reachInv graph s (nodeId ` set [startItem s 0]) [] 0"
    using reachInv_init [of graph s] by (simp add: startItem_def)
  have valid: "\<forall>x \<in> set [startItem s 0]. validItem graph s x"
    by (simp add: validItem_start)
  have found: "foundRun graph s t (bfs graph s t)"
    using bfs_loop_found [OF init assms(3) _ valid] by (simp add: bfs_def)
  have minimal: "minimalRun graph s t (bfs graph s t)"
    using bfs_loop_minimal [OF bfsInv_init] by (simp add: bfs_def)
  have "bfs graph s t \<in> searches graph s t None"
    by (simp add: searches_def)
  from searches_ok [OF this assms(1,2)] obtain steps r where r: "bfs graph s t = (steps, Inr r)"
    by (cases "bfs graph s t") auto
  with found have w: "walk graph s (r_path r) (pathCost r)" "last (r_path r) = t"
    by (simp_all add: foundRun_def)
  then have "r_path r \<noteq> []"
    using walk_nonempty by blast
  with minimal r w show ?thesis
    by (simp add: minimalRun_def)
qed





subsection \<open>Facts about the example graphs\<close>


lemma sampleGraph_wellFormed: "wellFormed sampleGraph"
  by (simp add: wellFormed_def nodeIds_def sampleGraph_def sampleNode_def sampleEdge_def)


lemma sampleGraph_nodeIds: "nodeIds sampleGraph = {''n0'', ''n1'', ''n2'', ''n3'', ''n4'', ''n5''}"
  by (simp add: nodeIds_def sampleGraph_def sampleNode_def)

lemma sampleGraph_walk: "walk sampleGraph ''n0'' [''n0'', ''n3'', ''n5''] 10"
proof -
  have "traversable sampleGraph ''n0'' ''n3'' 4" and "traversable sampleGraph ''n3'' ''n5'' 6"
    by (simp_all add: traversable_def sampleGraph_def sampleEdge_def)
  from walk.hop [OF walk.hop [OF walk.start [of sampleGraph "''n0''"]], of "''n3''" 4 "''n5''" 6] this
  show ?thesis
    by simp
qed

lemma sampleGraph_reachable: "reachable sampleGraph ''n0'' ''n5''"
  unfolding reachable_def using sampleGraph_walk by force

lemma sink_unreachable:
  assumes "\<forall>b w. \<not> traversable graph s b w" and "v \<noteq> s"
  shows "\<not> reachable graph s v"
proof -
  have "p = [s]" if "walk graph s p c" for p c
    using that assms(1) by (induction rule: walk.induct) auto
  with assms(2) show ?thesis
    unfolding reachable_def by fastforce
qed

lemma sampleGraph_unreachable: "\<not> reachable sampleGraph ''n5'' ''n0''"
  by (rule sink_unreachable) (simp_all add: traversable_def sampleGraph_def sampleEdge_def)

lemma sink_reachable:
  assumes "\<forall>b w. \<not> traversable graph s b w"
  shows "{v. reachable graph s v} = {s}"
  using sink_unreachable [OF assms] reachable_refl [of graph s] by auto







section \<open>Edge lookup and dispatch\<close>

text \<open>
  C7. \<open>findEdge\<close> returns no edge exactly when no edge of the graph joins source to target
  or is an undirected edge from target to source, and otherwise the first such edge in
  the order of \<open>edges\<close>. An undirected edge from \<open>a\<close> to \<open>b\<close> makes \<open>findEdge graph b a\<close>
  return an edge, and this very edge when no edge before it qualifies.
\<close>

theorem findEdge_first_match:
  "(findEdge graph sourceId targetId = None \<longleftrightarrow>
      (\<forall>e \<in> set (edges graph). \<not> edgeMatches sourceId targetId e)) \<and>
   (findEdge graph sourceId targetId = Some edge \<longleftrightarrow>
      (\<exists>i < length (edges graph). edges graph ! i = edge \<and> edgeMatches sourceId targetId edge \<and>
         (\<forall>j < i. \<not> edgeMatches sourceId targetId (edges graph ! j)))) \<and>
   (edgeMatches sourceId targetId edge \<longleftrightarrow>
      (source edge = sourceId \<and> target edge = targetId) \<or>
      (edge_type edge = Undirected \<and> source edge = targetId \<and> target edge = sourceId)) \<and>
   (k < length (edges graph) \<and> edge_type (edges graph ! k) = Undirected \<and>
    source (edges graph ! k) = a \<and> target (edges graph ! k) = b \<longrightarrow>
      (\<exists>e. findEdge graph b a = Some e \<and> edgeMatches b a e) \<and>
      ((\<forall>j < k. \<not> edgeMatches b a (edges graph ! j)) \<longrightarrow>
         findEdge graph b a = Some (edges graph ! k)))"
proof (intro conjI impI)
  show "findEdge graph sourceId targetId = None \<longleftrightarrow>
      (\<forall>e \<in> set (edges graph). \<not> edgeMatches sourceId targetId e)"
    by (auto simp: findEdge_def find_None_iff)
  show "findEdge graph sourceId targetId = Some edge \<longleftrightarrow>
      (\<exists>i < length (edges graph). edges graph ! i = edge \<and> edgeMatches sourceId targetId edge \<and>
         (\<forall>j < i. \<not> edgeMatches sourceId targetId (edges graph ! j)))"
    by (auto simp: findEdge_def find_Some_iff)
  show "edgeMatches sourceId targetId edge \<longleftrightarrow>
      (source edge = sourceId \<and> target edge = targetId) \<or>
      (edge_type edge = Undirected \<and> source edge = targetId \<and> target edge = sourceId)"
    by (simp add: edgeMatches_def)
next
  assume k: "k < length (edges graph) \<and> edge_type (edges graph ! k) = Undirected \<and>
    source (edges graph ! k) = a \<and> target (edges graph ! k) = b"
  then have m: "edgeMatches b a (edges graph ! k)"
    by (simp add: edgeMatches_def)
  with k have "\<exists>e \<in> set (edges graph). edgeMatches b a e"
    by (metis nth_mem)
  then obtain e where "findEdge graph b a = Some e"
    by (cases "findEdge graph b a") (auto simp: findEdge_def find_None_iff)
  then show "\<exists>e. findEdge graph b a = Some e \<and> edgeMatches b a e"
    by (auto simp: findEdge_def find_Some_iff)
  assume "\<forall>j < k. \<not> edgeMatches b a (edges graph ! j)"
  with k m show "findEdge graph b a = Some (edges graph ! k)"
    by (auto simp: findEdge_def find_Some_iff)
qed

theorem findEdge_first_match_witness:
  "findEdge undirectedPair ''b'' ''a'' = Some (sampleEdge ''ab'' ''a'' ''b'' 5 Undirected) \<and>
   findEdge undirectedPair ''a'' ''b'' = Some (sampleEdge ''ab'' ''a'' ''b'' 5 Undirected) \<and>
   findEdge undirectedPair ''b'' ''b'' = None"
  using findEdge_first_match [of undirectedPair "''b''" "''a''" _ 0 "''a''" "''b''"]
    findEdge_first_match [of undirectedPair "''a''" "''b''"
      "sampleEdge ''ab'' ''a'' ''b'' 5 Undirected" 0 "''a''" "''b''"]
    findEdge_first_match [of undirectedPair "''b''" "''b''" _ 0 "''a''" "''b''"]
  by (simp add: undirectedPair_def sampleEdge_def edgeMatches_def)

section \<open>Runs that end at the first dequeue or before it\<close>

text \<open>
  C8. An algorithm kind other than the four names makes \<open>runAlgorithm\<close> return the empty
  result with no step emitted, and an omitted heuristic kind is the Euclidean distance.
\<close>

theorem runAlgorithm_unknown_kind:
  "(algorithmType \<notin> {''bfs'', ''dfs'', ''dijkstra'', ''astar''} \<longrightarrow>
      runAlgorithm graph startNodeId goalNodeId algorithmType heuristicType =
        ([], Inr \<lparr>r_path = [], r_pathEdges = [], pathLength = 0, pathCost = 0,
                  nodesVisited = 0\<rparr>)) \<and>
   astar graph startNodeId goalNodeId None = astar graph startNodeId goalNodeId (Some ''euclidean'') \<and>
   runAlgorithm graph startNodeId goalNodeId algorithmType None =
     runAlgorithm graph startNodeId goalNodeId algorithmType (Some ''euclidean'') \<and>
   calculateHeuristic node goalNode ''euclidean'' = euclideanDistance node goalNode"
  by (simp add: runAlgorithm_def astar_def emptyResult_def calculateHeuristic_def)

theorem runAlgorithm_unknown_kind_witness:
  "runAlgorithm sampleGraph ''n0'' ''n5'' ''greedy'' (Some ''manhattan'') =
     ([], Inr \<lparr>r_path = [], r_pathEdges = [], pathLength = 0, pathCost = 0, nodesVisited = 0\<rparr>)"
  using runAlgorithm_unknown_kind [of "''greedy''" sampleGraph "''n0''" "''n5''" "Some ''manhattan''"]
  by simp

text \<open>
  C4, as the code has it. With the goal equal to the start, the first dequeue is the goal:
  the run is the single terminal step at the start node and the result is the path of the
  start node alone, without edges, of cost 0, with no node counted as visited. \<open>astar\<close>
  does so when the start node is in the graph.
\<close>

theorem start_is_goal:
  "bfs graph s s =
     ([\<lparr>currentNodeId = Some s, visited = [], s_path = [s], s_pathEdges = [], frontier = [],
        isComplete = True\<rparr>],
      Inr \<lparr>r_path = [s], r_pathEdges = [], pathLength = 1, pathCost = 0, nodesVisited = 0\<rparr>) \<and>
   dfs graph s s = bfs graph s s \<and>
   dijkstra graph s s = bfs graph s s \<and>
   (s \<in> set (map node_id (nodes graph)) \<longrightarrow> astar graph s s heuristicType = bfs graph s s)"
proof -
  have "s \<in> set (map node_id (nodes graph)) \<Longrightarrow> astar graph s s heuristicType = bfs graph s s"
    using findNode_Some [of s graph]
    by (auto simp: astar_def astar_loop.simps bfs_def bfs_loop.simps startItem_def goalStep_def
        goalResult_def Let_def)
  then show ?thesis
    by (simp add: bfs_def bfs_loop.simps dfs_def dfs_loop.simps dijkstra_def dijkstra_loop.simps
        startItem_def goalStep_def goalResult_def)
qed

theorem start_is_goal_witness:
  "astar sampleGraph ''n0'' ''n0'' None =
     ([\<lparr>currentNodeId = Some ''n0'', visited = [], s_path = [''n0''], s_pathEdges = [],
        frontier = [], isComplete = True\<rparr>],
      Inr \<lparr>r_path = [''n0''], r_pathEdges = [], pathLength = 1, pathCost = 0,
             nodesVisited = 0\<rparr>)"
  using start_is_goal [of sampleGraph "''n0''" None]
  by (simp add: sampleGraph_def sampleNode_def)

text \<open>With the goal equal to the start, \<open>nodesVisited\<close> is 0, not at least 1.\<close>

theorem start_is_goal_nodesVisited_zero:
  "snd (bfs oneNodeGraph ''a'' ''a'') =
     Inr \<lparr>r_path = [''a''], r_pathEdges = [], pathLength = 1, pathCost = 0, nodesVisited = 0\<rparr>"
  by (simp add: bfs_def bfs_loop.simps startItem_def goalResult_def)

text \<open>
  C3. A start id that names no node of the graph: \<open>astar\<close> returns the empty result and
  emits no step, while \<open>bfs\<close>, \<open>dfs\<close> and \<open>dijkstra\<close> settle the absent id, emit two steps
  and count one visited node.
\<close>

theorem missing_start_node:
  "astar oneNodeGraph ''z'' ''a'' None =
     ([], Inr \<lparr>r_path = [], r_pathEdges = [], pathLength = 0, pathCost = 0, nodesVisited = 0\<rparr>) \<and>
   bfs oneNodeGraph ''z'' ''a'' =
     ([\<lparr>currentNodeId = Some ''z'', visited = [''z''], s_path = [''z''], s_pathEdges = [],
        frontier = [], isComplete = False\<rparr>,
       \<lparr>currentNodeId = None, visited = [''z''], s_path = [], s_pathEdges = [],
        frontier = [], isComplete = True\<rparr>],
      Inr \<lparr>r_path = [], r_pathEdges = [], pathLength = 0, pathCost = 0, nodesVisited = 1\<rparr>) \<and>
   dfs oneNodeGraph ''z'' ''a'' = bfs oneNodeGraph ''z'' ''a'' \<and>
   dijkstra oneNodeGraph ''z'' ''a'' = bfs oneNodeGraph ''z'' ''a''"
  by (simp add: astar_def findNode_def emptyResult_def bfs_def dfs_def dijkstra_def
      bfs_loop.simps dfs_loop.simps dijkstra_loop.simps startItem_def oneNodeGraph_def sampleNode_def
      getNeighbors_def visitStep_def exhaustedStep_def exhaustedResult_def)
section \<open>Steps and visited nodes\<close>

text \<open>
  C6. On a graph whose edges join nodes of the graph and that holds the start and the goal
  node, each of the four searches returns a result, and the steps it emits are exactly
  \<open>nodesVisited\<close> steps that are not complete followed by one complete step, which is the
  last.
\<close>

theorem step_sequence:
  assumes "wellFormed graph" and "s \<in> nodeIds graph" and "t \<in> nodeIds graph"
    and "run \<in> {bfs graph s t, dfs graph s t, dijkstra graph s t, astar graph s t h}"
  shows "\<exists>ns st r. run = (ns @ [st], Inr r) \<and> length ns = nodesVisited r \<and>
           (\<forall>x \<in> set ns. \<not> isComplete x) \<and> isComplete st"
proof -
  from assms(4) have run: "run \<in> searches graph s t h"
    by (simp add: searches_def)
  from searches_ok [OF run assms(1,2)] obtain r where r: "snd run = Inr r"
    by blast
  from searches_traceFrom [OF run] assms(2,3) have "traceFrom t [] 0 (fst run) (Inr r)"
    by (simp add: r)
  from traceFrom_shape [OF this] obtain ns st where "fst run = ns @ [st]"
    "\<forall>x \<in> set ns. \<not> isComplete x" "isComplete st" "nodesVisited r = 0 + length ns"
    by blast
  with r show ?thesis
    by (intro exI [of _ ns] exI [of _ st] exI [of _ r]) (simp add: prod_eq_iff)
qed

theorem step_sequence_witness:
  "wellFormed sampleGraph \<and> ''n0'' \<in> nodeIds sampleGraph \<and> ''n5'' \<in> nodeIds sampleGraph \<and>
   (\<exists>ns st r. dijkstra sampleGraph ''n0'' ''n5'' = (ns @ [st], Inr r) \<and>
      length ns = nodesVisited r \<and> (\<forall>x \<in> set ns. \<not> isComplete x) \<and> isComplete st)"
  using step_sequence [OF sampleGraph_wellFormed, of "''n0''" "''n5''"
      "dijkstra sampleGraph ''n0'' ''n5''" None]
  by (simp add: sampleGraph_wellFormed sampleGraph_nodeIds)

text \<open>
  C9. In every step emitted by any of the four searches the goal is absent from the
  visited list, and no step that is not complete is at the goal. The result counts the
  steps that are not complete: \<open>nodesVisited\<close> is the length of the visited list of the
  last step, which has no repetition and does not hold the goal.
\<close>

theorem goal_never_visited:
  assumes "run \<in> {bfs graph s t, dfs graph s t, dijkstra graph s t, astar graph s t h}"
  shows "(\<forall>st \<in> set (fst run). t \<notin> set (visited st) \<and>
            (\<not> isComplete st \<longrightarrow> currentNodeId st \<noteq> None \<and> currentNodeId st \<noteq> Some t)) \<and>
         (\<forall>r. snd run = Inr r \<longrightarrow>
            nodesVisited r = length (filter (\<lambda>st. \<not> isComplete st) (fst run)) \<and>
            (fst run \<noteq> [] \<longrightarrow>
               nodesVisited r = length (visited (last (fst run))) \<and>
               distinct (visited (last (fst run))) \<and> t \<notin> set (visited (last (fst run)))))"
proof -
  from assms have run: "run \<in> searches graph s t h"
    by (simp add: searches_def)
  from searches_traceFrom [OF run] consider "fst run = []" "snd run = Inr emptyResult"
    | "traceFrom t [] 0 (fst run) (snd run)"
    by auto
  then show ?thesis
  proof cases
    case 1
    then show ?thesis
      by (simp add: emptyResult_def)
  next
    case 2
    note vis = traceFrom_visited [OF 2, simplified]
    have "nodesVisited r = length (filter (\<lambda>st. \<not> isComplete st) (fst run)) \<and>
        (fst run \<noteq> [] \<longrightarrow>
           nodesVisited r = length (visited (last (fst run))) \<and>
           distinct (visited (last (fst run))) \<and> t \<notin> set (visited (last (fst run))))"
      if r: "snd run = Inr r" for r
    proof -
      from 2 r have tr: "traceFrom t [] 0 (fst run) (Inr r)"
        by simp
      from traceFrom_shape [OF tr] obtain ns st where s: "fst run = ns @ [st]"
        "nodesVisited r = 0 + length ns" "visited st = [] @ map (the \<circ> currentNodeId) ns"
        by blast
      then have "nodesVisited r = length (visited (last (fst run)))"
        by simp
      moreover have "last (fst run) \<in> set (fst run)"
        using s(1) by simp
      ultimately show ?thesis
        using traceFrom_count [OF tr] vis by auto
    qed
    with vis show ?thesis
      by blast
  qed
qed

theorem goal_never_visited_witness:
  "''n5'' \<notin> set (concat (map visited (fst (bfs sampleGraph ''n0'' ''n5'')))) \<and>
   nodesVisited (projr (snd (bfs sampleGraph ''n0'' ''n5''))) = 4 \<and>
   visited (last (fst (bfs sampleGraph ''n0'' ''n5''))) = [''n0'', ''n1'', ''n3'', ''n2'']"
proof -
  have run: "bfs sampleGraph ''n0'' ''n5'' \<in>
      {bfs sampleGraph ''n0'' ''n5'', dfs sampleGraph ''n0'' ''n5'',
       dijkstra sampleGraph ''n0'' ''n5'', astar sampleGraph ''n0'' ''n5'' None}"
    by simp
  have "nodesVisited (projr (snd (bfs sampleGraph ''n0'' ''n5''))) = 4"
    and "visited (last (fst (bfs sampleGraph ''n0'' ''n5''))) = [''n0'', ''n1'', ''n3'', ''n2'']"
    by code_simp+
  with goal_never_visited [OF run] show ?thesis
    by auto
qed

section \<open>Results\<close>

text \<open>
  C5. On a graph whose edges join nodes of the graph and that holds the start and the goal
  node, with no path from the start to the goal, each of the four searches returns the
  empty path without edges, of cost 0, with \<open>nodesVisited\<close> the number of nodes reachable
  from the start (the start among them), and the last step emitted is complete and has no
  current node.
\<close>

theorem unreachable_goal:
  assumes "wellFormed graph" and "s \<in> nodeIds graph" and "t \<in> nodeIds graph"
    and "\<not> reachable graph s t"
    and "run \<in> {bfs graph s t, dfs graph s t, dijkstra graph s t, astar graph s t h}"
  shows "\<exists>steps r. run = (steps, Inr r) \<and> r_path r = [] \<and> r_pathEdges r = [] \<and>
           pathLength r = 0 \<and> pathCost r = 0 \<and>
           nodesVisited r = card {v. reachable graph s v} \<and>
           steps \<noteq> [] \<and> currentNodeId (last steps) = None \<and> isComplete (last steps) \<and>
           set (visited (last steps)) = {v. reachable graph s v}"
proof -
  from assms(5) have run: "run \<in> searches graph s t h"
    by (simp add: searches_def)
  from searches_unreachable [OF run assms(1-4)] have e: "exhaustedRun graph s run" .
  then have "currentNodeId (last (fst run)) = None \<and> isComplete (last (fst run))"
    unfolding exhaustedRun_def exhaustedStep_def
    by (metis AlgorithmStepResult.select_convs(1,6))
  with e show ?thesis
    by (intro exI [of _ "fst run"] exI [of _ "exhaustedResult (card {v. reachable graph s v})"])
      (simp add: exhaustedRun_def exhaustedResult_def prod_eq_iff)
qed

theorem unreachable_goal_witness:
  "wellFormed sampleGraph \<and> ''n5'' \<in> nodeIds sampleGraph \<and> ''n0'' \<in> nodeIds sampleGraph \<and>
   \<not> reachable sampleGraph ''n5'' ''n0'' \<and>
   (\<exists>steps r. dfs sampleGraph ''n5'' ''n0'' = (steps, Inr r) \<and> r_path r = [] \<and>
      pathCost r = 0 \<and> nodesVisited r = 1 \<and> currentNodeId (last steps) = None)"
proof -
  have sink: "\<forall>b w. \<not> traversable sampleGraph ''n5'' b w"
    by (simp add: traversable_def sampleGraph_def sampleEdge_def)
  from unreachable_goal [OF sampleGraph_wellFormed _ _ sampleGraph_unreachable,
      of "dfs sampleGraph ''n5'' ''n0''" None]
  show ?thesis
    by (auto simp: sampleGraph_wellFormed sampleGraph_nodeIds sampleGraph_unreachable
        sink_reachable [OF sink])
qed



section \<open>Shortest paths\<close>

text \<open>
  C2. On a graph whose edges join nodes of the graph, from a start node of the graph with
  a path to the goal, \<open>bfs\<close> returns a path from the start to the goal with no more nodes
  than any other path from the start to the goal, whatever the weights.
\<close>

theorem bfs_fewest_nodes:
  assumes "wellFormed graph" and "s \<in> nodeIds graph" and "reachable graph s t"
  shows "\<exists>steps r. bfs graph s t = (steps, Inr r) \<and> walk graph s (r_path r) (pathCost r) \<and>
           last (r_path r) = t \<and> pathLength r = length (r_path r) \<and>
           (\<forall>p c. walk graph s p c \<and> last p = t \<longrightarrow> pathLength r \<le> length p)"
proof -
  from bfs_shortest [OF assms] obtain steps r where r: "bfs graph s t = (steps, Inr r)"
    "walk graph s (r_path r) (pathCost r)" "last (r_path r) = t"
    "\<forall>p c. walk graph s p c \<and> last p = t \<longrightarrow> length (r_path r) \<le> length p"
    by blast
  have "traceFrom t [] 0 (fst (bfs graph s t)) (snd (bfs graph s t))"
    by (simp add: bfs_def bfs_loop_traceFrom)
  with r(1) have "pathLength r = length (r_path r)"
    using traceFrom_result [of t "[]" 0 steps r] by simp
  with r show ?thesis
    by simp
qed

theorem bfs_fewest_nodes_witness:
  "wellFormed sampleGraph \<and> ''n0'' \<in> nodeIds sampleGraph \<and> reachable sampleGraph ''n0'' ''n5'' \<and>
   (\<exists>steps r. bfs sampleGraph ''n0'' ''n5'' = (steps, Inr r) \<and>
      r_path r = [''n0'', ''n3'', ''n5''] \<and> pathLength r = 3 \<and>
      (\<forall>p c. walk sampleGraph ''n0'' p c \<and> last p = ''n5'' \<longrightarrow> 3 \<le> length p))"
proof -
  have "snd (bfs sampleGraph ''n0'' ''n5'') =
      Inr \<lparr>r_path = [''n0'', ''n3'', ''n5''], r_pathEdges = [''e2'', ''e4''], pathLength = 3,
            pathCost = 10, nodesVisited = 4\<rparr>"
    by code_simp
  with bfs_fewest_nodes [OF sampleGraph_wellFormed _ sampleGraph_reachable]
  show ?thesis
    by (auto simp: sampleGraph_wellFormed sampleGraph_nodeIds sampleGraph_reachable)
qed




end
